theory Spec2Isabelle
  imports Complex_Main "HOL-Library.Product_Lexorder" "HOL-Library.Multiset"
begin

section \<open>Python strings\<close>

text \<open>
  A Python \<^verbatim>\<open>str\<close> is a sequence of code points. It is modelled by \<^typ>\<open>string\<close>, each
  \<^typ>\<open>char\<close> read as the code point of the same number (0 to 255).
\<close>

text \<open>\<^verbatim>\<open>str.isspace\<close> on one code point: the code points below 256 that Python strips.\<close>

definition isspace :: "char \<Rightarrow> bool" where
  "isspace c =
     (let n = (of_char c :: nat)
      in (9 \<le> n \<and> n \<le> 13) \<or> (28 \<le> n \<and> n \<le> 32) \<or> n = 133 \<or> n = 160)"

text \<open>\<^verbatim>\<open>s.strip()\<close>: leading and trailing whitespace removed.\<close>

definition strip :: "string \<Rightarrow> string" where
  "strip s = rev (dropWhile isspace (rev (dropWhile isspace s)))"

text \<open>\<^verbatim>\<open>s.lower()\<close>: the upper-case letters below 256 are 32 below their lower-case forms.\<close>

definition lower_char :: "char \<Rightarrow> char" where
  "lower_char c =
     (let n = (of_char c :: nat)
      in if (65 \<le> n \<and> n \<le> 90) \<or> (192 \<le> n \<and> n \<le> 222 \<and> n \<noteq> 215)
         then char_of (n + 32) else c)"

definition lower :: "string \<Rightarrow> string" where
  "lower s = map lower_char s"

text \<open>\<^verbatim>\<open>sep.join(items)\<close> on a list of strings.\<close>

fun join :: "string \<Rightarrow> string list \<Rightarrow> string" where
  "join sep [] = []"
| "join sep [x] = x"
| "join sep (x # y # ys) = x @ sep @ join sep (y # ys)"

text \<open>\<^verbatim>\<open>kw in text\<close>: \<open>kw\<close> occurs in \<open>text\<close> as a contiguous substring.\<close>

fun starts_with :: "string \<Rightarrow> string \<Rightarrow> bool" where
  "starts_with [] t = True"
| "starts_with (k # ks) [] = False"
| "starts_with (k # ks) (c # cs) = (k = c \<and> starts_with ks cs)"

fun contains :: "string \<Rightarrow> string \<Rightarrow> bool" where
  "contains kw [] = (kw = [])"
| "contains kw (c # cs) = (starts_with kw (c # cs) \<or> contains kw cs)"


section \<open>Decoded JSON values\<close>

text \<open>
  What \<^verbatim>\<open>json.loads\<close> returns. Python's \<^verbatim>\<open>bool\<close>, \<^verbatim>\<open>int\<close> and \<^verbatim>\<open>float\<close> are its numbers.
  A float is a finite value (the rational it denotes), an infinity or NaN: \<^verbatim>\<open>json.loads\<close>
  reads the literals \<^verbatim>\<open>NaN\<close>, \<^verbatim>\<open>Infinity\<close> and \<^verbatim>\<open>-Infinity\<close>. A \<^verbatim>\<open>dict\<close> is the list of its
  items in insertion order; \<open>JNull\<close> is \<^verbatim>\<open>None\<close>.
\<close>

datatype pyfloat = FVal rat | FInf | FNegInf | FNaN

datatype number = PyBool bool | PyInt int | PyFloat pyfloat

datatype json =
    JNull
  | JNum number
  | JStr string
  | JArr "json list"
  | JObj "(string \<times> json) list"

text \<open>The value that a number has in a comparison: \<^verbatim>\<open>True\<close> is 1 and \<^verbatim>\<open>False\<close> is 0.\<close>

fun num_val :: "number \<Rightarrow> pyfloat" where
  "num_val (PyBool b) = FVal (if b then 1 else 0)"
| "num_val (PyInt i) = FVal (of_int i)"
| "num_val (PyFloat f) = f"

text \<open>
  Python's \<^verbatim>\<open><\<close>, \<^verbatim>\<open>==\<close> and \<^verbatim>\<open><=\<close> on numbers, and the unary minus: every comparison
  with NaN is false.
\<close>

fun val_lt :: "pyfloat \<Rightarrow> pyfloat \<Rightarrow> bool" where
  "val_lt (FVal a) (FVal b) = (a < b)"
| "val_lt (FVal a) FInf = True"
| "val_lt FNegInf (FVal b) = True"
| "val_lt FNegInf FInf = True"
| "val_lt _ _ = False"

fun val_eq :: "pyfloat \<Rightarrow> pyfloat \<Rightarrow> bool" where
  "val_eq FNaN _ = False"
| "val_eq _ FNaN = False"
| "val_eq a b = (a = b)"

definition val_le :: "pyfloat \<Rightarrow> pyfloat \<Rightarrow> bool" where
  "val_le a b = (val_lt a b \<or> val_eq a b)"

fun val_neg :: "pyfloat \<Rightarrow> pyfloat" where
  "val_neg (FVal a) = FVal (- a)"
| "val_neg FInf = FNegInf"
| "val_neg FNegInf = FInf"
| "val_neg FNaN = FNaN"

text \<open>Python's truth test \<^verbatim>\<open>bool(v)\<close>: a number is true when it is not equal to 0.\<close>

fun truthy :: "json \<Rightarrow> bool" where
  "truthy JNull = False"
| "truthy (JNum n) = (\<not> val_eq (num_val n) (FVal 0))"
| "truthy (JStr s) = (s \<noteq> [])"
| "truthy (JArr xs) = (xs \<noteq> [])"
| "truthy (JObj kvs) = (kvs \<noteq> [])"

text \<open>
  The exceptions of a run: those the program raises on a value of the wrong type, and
  those of the library calls it makes.
\<close>

datatype exc =
    AttributeError
  | TypeError
  | JSONDecodeError
  | ValueError
  | RecursionError
  | UnicodeDecodeError
  | UnicodeEncodeError

text \<open>Sequencing: an exception raised by the first step skips the rest.\<close>

fun bindE :: "exc + 'a \<Rightarrow> ('a \<Rightarrow> exc + 'b) \<Rightarrow> exc + 'b" where
  "bindE (Inl x) f = Inl x"
| "bindE (Inr v) f = f v"

text \<open>\<^verbatim>\<open>e.get(k)\<close>: only a dict has the method.\<close>

fun py_get :: "json \<Rightarrow> string \<Rightarrow> exc + json option" where
  "py_get (JObj kvs) k = Inr (map_of kvs k)"
| "py_get _ k = Inl AttributeError"

text \<open>\<^verbatim>\<open>e.get(k, d)\<close> on a dict: the default stands in for an absent key only.\<close>

definition get_default :: "json \<Rightarrow> string \<Rightarrow> json \<Rightarrow> exc + json" where
  "get_default e k d =
     (case py_get e k of
        Inl x \<Rightarrow> Inl x
      | Inr None \<Rightarrow> Inr d
      | Inr (Some v) \<Rightarrow> Inr v)"

text \<open>\<^verbatim>\<open>(e.get(k) or "").strip()\<close>: a true value that is no string has no \<^verbatim>\<open>strip\<close>.\<close>

definition get_stripped :: "json \<Rightarrow> string \<Rightarrow> exc + string" where
  "get_stripped e k =
     (case py_get e k of
        Inl x \<Rightarrow> Inl x
      | Inr None \<Rightarrow> Inr (strip [])
      | Inr (Some v) \<Rightarrow>
          if truthy v
          then (case v of JStr s \<Rightarrow> Inr (strip s) | _ \<Rightarrow> Inl AttributeError)
          else Inr (strip []))"

text \<open>\<^verbatim>\<open>e.get(k) or d\<close> and \<^verbatim>\<open>e.get(k, d) or d\<close>.\<close>

definition get_or :: "json \<Rightarrow> string \<Rightarrow> json \<Rightarrow> exc + json" where
  "get_or e k d =
     (case py_get e k of
        Inl x \<Rightarrow> Inl x
      | Inr None \<Rightarrow> Inr d
      | Inr (Some v) \<Rightarrow> Inr (if truthy v then v else d))"

text \<open>
  The items \<^verbatim>\<open>str.join\<close> draws from its argument: the elements of a list, the
  characters of a string, the keys of a dict. Anything else is not iterable, and an item
  that is no string is refused.
\<close>

fun as_str :: "json \<Rightarrow> string option" where
  "as_str (JStr s) = Some s"
| "as_str _ = None"

fun join_items :: "json \<Rightarrow> exc + string list" where
  "join_items (JArr xs) =
     (if list_all (\<lambda>x. as_str x \<noteq> None) xs then Inr (map (\<lambda>x. the (as_str x)) xs)
      else Inl TypeError)"
| "join_items (JStr s) = Inr (map (\<lambda>c. [c]) s)"
| "join_items (JObj kvs) = Inr (map fst kvs)"
| "join_items _ = Inl TypeError"


section \<open>Tier classification\<close>

definition TIER1_KEYWORDS :: "string list" where
  "TIER1_KEYWORDS =
     [''instalator'', ''plumber'', ''instalatii'',
      ''electrician'', ''electrice'', ''electric'',
      ''acoperis'', ''roofer'', ''roof'',
      ''service auto'', ''vulcanizare'', ''mecanic auto'', ''reparatii auto'',
      ''auto repair'', ''car service'', ''car repair'',
      ''amenajari'', ''gradini'', ''peisagist'', ''landscap'', ''gradinar'',
      ''spatii verzi'']"

definition TIER2_KEYWORDS :: "string list" where
  "TIER2_KEYWORDS =
     [''dentist'', ''stomatolog'', ''dentar'', ''dental'', ''implant'',
      ''salon'', ''coafor'', ''coafura'', ''frizerie'', ''hair'', ''infrumusetare'',
      ''beauty'',
      ''fitness'']"

text \<open>The loop \<^verbatim>\<open>for kw in kws: if kw in text: return ...\<close>: does it return?\<close>

fun any_keyword :: "string list \<Rightarrow> string \<Rightarrow> bool" where
  "any_keyword [] text = False"
| "any_keyword (kw # kws) text = (if contains kw text then True else any_keyword kws text)"

text \<open>
  \<^verbatim>\<open>classify_tier(title, categories)\<close> on a title and the strings that
  \<^verbatim>\<open>' '.join(categories)\<close> joins; the caller draws them with \<open>join_items\<close>.
\<close>

definition classify_tier :: "string \<Rightarrow> string list \<Rightarrow> nat" where
  "classify_tier title categories =
     (let text = lower (title @ '' '' @ join '' '' categories)
      in if any_keyword TIER1_KEYWORDS text then 1
         else if any_keyword TIER2_KEYWORDS text then 2
         else 3)"


section \<open>The filter\<close>

text \<open>A lead: the dict that \<^verbatim>\<open>main\<close> appends to \<^verbatim>\<open>leads\<close>, its ten keys in order.\<close>

record lead =
  tier :: nat
  title :: string
  category :: json
  phone :: string
  emails :: string
  review_count :: number
  review_rating :: json
  address :: json
  google_maps_link :: json
  status :: json

text \<open>The locals of one iteration that outlive the three tests.\<close>

record candidate =
  c_title :: string
  c_phone :: string
  c_emails :: json
  c_review_count :: number

text \<open>
  The head of the loop body: the five locals are read first, then the three tests run.
  \<open>Inr None\<close> is \<^verbatim>\<open>continue\<close>. The comparison \<^verbatim>\<open>review_count < 1\<close> is defined on
  numbers only.
\<close>

definition qualify :: "json \<Rightarrow> exc + candidate option" where
  "qualify e =
     bindE (get_stripped e ''web_site'') (\<lambda>website.
     bindE (get_or e ''review_count'' (JNum (PyInt 0))) (\<lambda>rc.
     bindE (get_stripped e ''phone'') (\<lambda>ph.
     bindE (get_or e ''emails'' (JArr [])) (\<lambda>em.
     bindE (get_stripped e ''title'') (\<lambda>ti.
       if website \<noteq> [] then Inr None
       else (case rc of
               JNum n \<Rightarrow>
                 if val_lt (num_val n) (FVal 1) then Inr None
                 else if ph = [] \<and> \<not> truthy em then Inr None
                 else Inr (Some \<lparr>c_title = ti, c_phone = ph, c_emails = em,
                                 c_review_count = n\<rparr>)
             | _ \<Rightarrow> Inl TypeError))))))"

text \<open>\<^verbatim>\<open>f"{title}|{phone}"\<close>\<close>

definition dedup_key :: "candidate \<Rightarrow> string" where
  "dedup_key c = c_title c @ ''|'' @ c_phone c"

text \<open>The tail of the loop body: the tier, then the dict, its values in source order.\<close>

definition build_lead :: "candidate \<Rightarrow> json \<Rightarrow> exc + lead" where
  "build_lead c e =
     bindE (get_or e ''categories'' (JArr [])) (\<lambda>cats.
     bindE (join_items cats) (\<lambda>cs.
     bindE (get_default e ''category'' (JStr [])) (\<lambda>cat.
     bindE (if truthy (c_emails c)
            then bindE (join_items (c_emails c)) (\<lambda>items. Inr (join ''; '' items))
            else Inr []) (\<lambda>em.
     bindE (get_default e ''review_rating'' (JNum (PyInt 0))) (\<lambda>rr.
     bindE (get_default e ''address'' (JStr [])) (\<lambda>ad.
     bindE (get_default e ''link'' (JStr [])) (\<lambda>li.
     bindE (get_default e ''status'' (JStr [])) (\<lambda>st.
       Inr \<lparr>tier = classify_tier (c_title c) cs,
            title = c_title c,
            category = cat,
            phone = c_phone c,
            emails = em,
            review_count = c_review_count c,
            review_rating = rr,
            address = ad,
            google_maps_link = li,
            status = st\<rparr>))))))))"

text \<open>The loop over \<^verbatim>\<open>entries\<close>, with its two variables \<^verbatim>\<open>seen\<close> and \<^verbatim>\<open>leads\<close>.\<close>

fun filter_loop :: "json list \<Rightarrow> string set \<Rightarrow> lead list \<Rightarrow> exc + string set \<times> lead list" where
  "filter_loop [] seen leads = Inr (seen, leads)"
| "filter_loop (e # es) seen leads =
     (case qualify e of
        Inl x \<Rightarrow> Inl x
      | Inr None \<Rightarrow> filter_loop es seen leads
      | Inr (Some c) \<Rightarrow>
          if dedup_key c \<in> seen then filter_loop es seen leads
          else (case build_lead c e of
                  Inl x \<Rightarrow> Inl x
                | Inr l \<Rightarrow> filter_loop es (insert (dedup_key c) seen) (leads @ [l])))"

definition filter_entries :: "json list \<Rightarrow> exc + lead list" where
  "filter_entries es =
     (case filter_loop es {} [] of Inl x \<Rightarrow> Inl x | Inr (seen, leads) \<Rightarrow> Inr leads)"


section \<open>The ranker\<close>

text \<open>\<^verbatim>\<open>key=lambda x: (x["tier"], -x["review_count"])\<close>\<close>

definition sort_key_of :: "lead \<Rightarrow> nat \<times> pyfloat" where
  "sort_key_of x = (tier x, val_neg (num_val (review_count x)))"

text \<open>
  Python's \<^verbatim>\<open><\<close> on two keys: the tiers decide when they differ, else the second
  components do when they are not equal.
\<close>

definition key_lt :: "nat \<times> pyfloat \<Rightarrow> nat \<times> pyfloat \<Rightarrow> bool" where
  "key_lt a b =
     (if fst a \<noteq> fst b then fst a < fst b
      else if \<not> val_eq (snd a) (snd b) then val_lt (snd a) (snd b)
      else False)"

text \<open>
  A stable sort by \<^verbatim>\<open><\<close> on the keys: each lead, from the last to the first, goes in
  behind the leads whose key is less than its own.
\<close>

fun insert_lead :: "lead \<Rightarrow> lead list \<Rightarrow> lead list" where
  "insert_lead x [] = [x]"
| "insert_lead x (y # ys) =
     (if key_lt (sort_key_of y) (sort_key_of x) then y # insert_lead x ys else x # y # ys)"

definition stable_sort :: "lead list \<Rightarrow> lead list" where
  "stable_sort ls = foldr insert_lead ls []"

definition has_nan_count :: "lead list \<Rightarrow> bool" where
  "has_nan_count ls = list_ex (\<lambda>l. num_val (review_count l) = FNaN) ls"

text \<open>
  \<^verbatim>\<open>leads.sort(key=...)\<close>. Python's sort is stable, so when \<^verbatim>\<open><\<close> orders the keys, which
  it does when no count is NaN, the result is the one stable sorted arrangement of the
  list. When a count is NaN the sort still leaves a permutation of the list, but which one
  depends on its merge strategy: the parameter \<open>arrange\<close> names it, as the list of the
  positions in their new order, and is used only where it is a permutation of the
  positions.
\<close>

definition rank :: "(lead list \<Rightarrow> nat list) \<Rightarrow> lead list \<Rightarrow> lead list" where
  "rank arrange ls =
     (if \<not> has_nan_count ls then stable_sort ls
      else if sort (arrange ls) = [0..<length ls] then map (\<lambda>i. ls ! i) (arrange ls)
      else ls)"


section \<open>The loader\<close>

text \<open>
  The parameter \<open>loads\<close> is \<^verbatim>\<open>json.loads\<close>: it returns a value or raises. The loop
  catches \<^verbatim>\<open>JSONDecodeError\<close> alone; any other exception ends it.
\<close>

fun load_loop :: "(string \<Rightarrow> exc + json) \<Rightarrow> string list \<Rightarrow> json list \<Rightarrow> exc + json list" where
  "load_loop loads [] entries = Inr entries"
| "load_loop loads (l # ls) entries =
     (let line = strip l
      in if line = [] then load_loop loads ls entries
         else (case loads line of
                 Inr entry \<Rightarrow> load_loop loads ls (entries @ [entry])
               | Inl x \<Rightarrow>
                   if x = JSONDecodeError then load_loop loads ls entries else Inl x))"

definition load :: "(string \<Rightarrow> exc + json) \<Rightarrow> string list \<Rightarrow> exc + json list" where
  "load loads ls = load_loop loads ls []"


section \<open>The whole run\<close>

definition INPUT_FILE :: string where "INPUT_FILE = ''bucharest-results.json''"
definition OUTPUT_ALL :: string where "OUTPUT_ALL = ''bucharest-leads-all.csv''"
definition OUTPUT_TIER1 :: string where "OUTPUT_TIER1 = ''bucharest-leads-tier1.csv''"
definition OUTPUT_TIER2 :: string where "OUTPUT_TIER2 = ''bucharest-leads-tier2.csv''"

text \<open>
  The files by name. A text file is the list of its lines: for the input what iterating
  over it yields, for an export the rows in the order written, so its bytes are their
  concatenation. A file whose bytes are not all UTF-8 yields the lines that are decoded
  before the first such bytes are met, and then \<^verbatim>\<open>UnicodeDecodeError\<close> is raised.
\<close>

datatype content = Text "string list" | Undecodable "string list"

type_synonym files = "string \<rightharpoonup> content"

text \<open>
  What \<^verbatim>\<open>print\<close> writes, one constructor for each kind of line; \<open>TopLead\<close> is the block
  of lines printed for one of the first ten tier-1 leads, with its number.
\<close>

datatype message =
    NotFound string
  | TotalEntries nat
  | FilteredLeads nat
  | TierCount nat nat
  | Written nat string
  | TopHeader
  | TopLead nat lead

text \<open>How a run ends: \<^verbatim>\<open>main\<close> returns, \<^verbatim>\<open>sys.exit\<close> is called, or an exception is not caught.\<close>

datatype outcome = Returned | Exited nat | Raised exc

definition fieldnames :: "string list" where
  "fieldnames = [''tier'', ''title'', ''category'', ''phone'', ''emails'',
                 ''review_count'', ''review_rating'', ''address'', ''google_maps_link'',
                 ''status'']"

text \<open>\<^verbatim>\<open>writer.writeheader()\<close>: the field names, comma separated, and the line end CR LF.\<close>

definition header_row :: string where
  "header_row = join '','' fieldnames @ [CHR 0x0D, CHR 0x0A]"

text \<open>
  \<^verbatim>\<open>writer.writerows(data)\<close>: the rows reach the file one by one. The parameter \<open>row\<close> is
  what writing one lead gives: its line, or the exception raised when a field cannot be
  encoded as UTF-8. The rows before the first exception are written, and the exception is
  returned with them.
\<close>

fun write_rows :: "(lead \<Rightarrow> exc + string) \<Rightarrow> lead list \<Rightarrow> string list \<times> exc option" where
  "write_rows row [] = ([], None)"
| "write_rows row (l # ls) =
     (case row l of
        Inl x \<Rightarrow> ([], Some x)
      | Inr s \<Rightarrow> (case write_rows row ls of (rs, r) \<Rightarrow> (s # rs, r)))"

text \<open>
  \<^verbatim>\<open>write_csv(filename, data)\<close>: mode \<^verbatim>\<open>"w"\<close> replaces the file, which is closed with
  what was written also when a row raises; the count is printed only after that.
\<close>

definition write_csv ::
  "(lead \<Rightarrow> exc + string) \<Rightarrow> string \<Rightarrow> lead list \<Rightarrow> files \<times> message list \<Rightarrow>
     exc option \<times> files \<times> message list" where
  "write_csv row filename data st =
     (case st of (fs, out) \<Rightarrow>
        (case write_rows row data of (rows, r) \<Rightarrow>
           (r, fs(filename \<mapsto> Text (header_row # rows)),
            if r = None then out @ [Written (length data) filename] else out)))"

definition tier_count :: "lead list \<Rightarrow> nat \<Rightarrow> nat" where
  "tier_count leads k = length (filter (\<lambda>l. tier l = k) leads)"

text \<open>The lines that report the number of leads and of the leads of each tier.\<close>

definition tier_report :: "lead list \<Rightarrow> message list" where
  "tier_report leads =
     [FilteredLeads (length leads),
      TierCount 1 (tier_count leads 1),
      TierCount 2 (tier_count leads 2),
      TierCount 3 (tier_count leads 3)]"

text \<open>\<^verbatim>\<open>enumerate(tier1[:10], 1)\<close>\<close>

definition top10 :: "lead list \<Rightarrow> message list" where
  "top10 tier1 = map (\<lambda>(i, l). TopLead (Suc i) l) (zip [0..<10] (take 10 tier1))"

text \<open>
  \<^verbatim>\<open>main()\<close>: how the run ends, what it printed, and the files it leaves. An exception
  ends the run where it is raised. A file that exists is opened, an export is opened for
  writing, and the console takes every line printed.
\<close>

definition main ::
  "(string \<Rightarrow> exc + json) \<Rightarrow> (lead list \<Rightarrow> nat list) \<Rightarrow> (lead \<Rightarrow> exc + string) \<Rightarrow> files \<Rightarrow>
     outcome \<times> message list \<times> files" where
  "main loads arrange row fs =
     (case fs INPUT_FILE of
        None \<Rightarrow> (Exited 1, [NotFound INPUT_FILE], fs)
      | Some (Undecodable ls) \<Rightarrow>
          (case load loads ls of
             Inl x \<Rightarrow> (Raised x, [], fs)
           | Inr entries \<Rightarrow> (Raised UnicodeDecodeError, [], fs))
      | Some (Text ls) \<Rightarrow>
          (case load loads ls of
             Inl x \<Rightarrow> (Raised x, [], fs)
           | Inr entries \<Rightarrow>
               let out0 = [TotalEntries (length entries)]
               in (case filter_entries entries of
                     Inl x \<Rightarrow> (Raised x, out0, fs)
                   | Inr unsorted \<Rightarrow>
                       let leads = rank arrange unsorted;
                           out1 = out0 @ tier_report leads;
                           tier1 = filter (\<lambda>l. tier l = 1) leads;
                           tier2 = filter (\<lambda>l. tier l = 2) leads
                       in (case write_csv row OUTPUT_ALL leads (fs, out1) of
                             (Some x, fs1, out2) \<Rightarrow> (Raised x, out2, fs1)
                           | (None, fs1, out2) \<Rightarrow>
                          (case write_csv row OUTPUT_TIER1 tier1 (fs1, out2) of
                             (Some x, fs2, out3) \<Rightarrow> (Raised x, out3, fs2)
                           | (None, fs2, out3) \<Rightarrow>
                          (case write_csv row OUTPUT_TIER2 tier2 (fs2, out3) of
                             (Some x, fs3, out4) \<Rightarrow> (Raised x, out4, fs3)
                           | (None, fs3, out4) \<Rightarrow>
                               (Returned, out4 @ [TopHeader] @ top10 tier1, fs3)))))))"

text \<open>The exit status of the process: an uncaught exception gives 1.\<close>

fun exit_status :: "outcome \<Rightarrow> nat" where
  "exit_status Returned = 0"
| "exit_status (Exited n) = n"
| "exit_status (Raised x) = 1"

section \<open>The properties, in the words of the specification\<close>

text \<open>A field of a record: absent when the key is missing (or the value is no dict).\<close>

definition field :: "json \<Rightarrow> string \<Rightarrow> json option" where
  "field e k = (case e of JObj kvs \<Rightarrow> map_of kvs k | _ \<Rightarrow> None)"

text \<open>Text with a character that is not whitespace.\<close>

fun has_text :: "json option \<Rightarrow> bool" where
  "has_text (Some (JStr s)) = (strip s \<noteq> [])"
| "has_text _ = False"

text \<open>The text of a field, empty when the field is absent, null or no text.\<close>

fun text_of :: "json option \<Rightarrow> string" where
  "text_of (Some (JStr s)) = s"
| "text_of _ = []"

text \<open>Python's \<^verbatim>\<open>len\<close>, defined on strings, lists and dicts.\<close>

fun py_len :: "json \<Rightarrow> nat option" where
  "py_len (JStr s) = Some (length s)"
| "py_len (JArr xs) = Some (length xs)"
| "py_len (JObj kvs) = Some (length kvs)"
| "py_len _ = None"

text \<open>A count, 0 when absent or null; no count at all when the value is no number.\<close>

fun count_of :: "json option \<Rightarrow> pyfloat option" where
  "count_of None = Some (FVal 0)"
| "count_of (Some JNull) = Some (FVal 0)"
| "count_of (Some (JNum n)) = Some (num_val n)"
| "count_of (Some _) = None"

text \<open>The three inclusion predicates.\<close>

definition no_website :: "json \<Rightarrow> bool" where
  "no_website e = (\<not> has_text (field e ''web_site''))"

definition has_reviews :: "json \<Rightarrow> bool" where
  "has_reviews e =
     (case count_of (field e ''review_count'') of Some v \<Rightarrow> val_le (FVal 1) v | None \<Rightarrow> False)"

definition has_contact :: "json \<Rightarrow> bool" where
  "has_contact e =
     (has_text (field e ''phone'') \<or>
      (case field e ''emails'' of
         Some v \<Rightarrow> (case py_len v of Some n \<Rightarrow> 0 < n | None \<Rightarrow> False)
       | None \<Rightarrow> False))"

text \<open>The count of a record is NaN.\<close>

definition nan_count :: "json \<Rightarrow> bool" where
  "nan_count e = (count_of (field e ''review_count'') = Some FNaN)"

text \<open>
  A qualifying record: one that satisfies the three predicates, or the first and the third
  with a count that is NaN. The filter tests that the count is not below 1, which is true
  of the counts that are at least 1 and of NaN.
\<close>

definition qualifying :: "json \<Rightarrow> bool" where
  "qualifying e = (no_website e \<and> (has_reviews e \<or> nan_count e) \<and> has_contact e)"

text \<open>
  The dedup key of a record: its trimmed title, the separator, its trimmed phone.
\<close>

definition record_key :: "json \<Rightarrow> string" where
  "record_key e =
     strip (text_of (field e ''title'')) @ ''|'' @ strip (text_of (field e ''phone''))"

text \<open>
  The positions of the qualifying records that are first with their dedup key among the
  qualifying records.
\<close>

definition first_of_key :: "json list \<Rightarrow> nat set" where
  "first_of_key es =
     {i. i < length es \<and> qualifying (es ! i) \<and>
         (\<forall>j < i. qualifying (es ! j) \<longrightarrow> record_key (es ! j) \<noteq> record_key (es ! i))}"

text \<open>
  The positions at which the loop appends a lead: the record passes the three tests of
  \<open>qualify\<close>, and no record before it that passes them has its \<open>dedup_key\<close>.
\<close>

definition kept_positions :: "json list \<Rightarrow> nat set" where
  "kept_positions es =
     {i. i < length es \<and>
         (\<exists>c. qualify (es ! i) = Inr (Some c) \<and>
              (\<forall>j < i. \<forall>c'. qualify (es ! j) = Inr (Some c') \<longrightarrow> dedup_key c' \<noteq> dedup_key c))}"

text \<open>The lead a record gives when it is kept.\<close>

definition lead_of :: "json \<Rightarrow> exc + lead" where
  "lead_of e =
     (case qualify e of
        Inr (Some c) \<Rightarrow> build_lead c e
      | Inr None \<Rightarrow> Inl TypeError
      | Inl x \<Rightarrow> Inl x)"

text \<open>The pair that identifies a lead.\<close>

definition title_phone :: "lead \<Rightarrow> string \<times> string" where
  "title_phone l = (title l, phone l)"

text \<open>A keyword occurs in a text: the text is some prefix, the keyword, some suffix.\<close>

definition occurs_in :: "string \<Rightarrow> string \<Rightarrow> bool" where
  "occurs_in kw text = (\<exists>pre post. text = pre @ kw @ post)"

text \<open>The search string: title and categories joined by single spaces, lowercased.\<close>

definition search_text :: "string \<Rightarrow> string list \<Rightarrow> string" where
  "search_text t cs = lower (join '' '' (t # cs))"

text \<open>
  The order of the ranked list between one lead and the next: a lower tier, or the same
  tier and a count that is not smaller (Python's \<^verbatim>\<open>>=\<close>).
\<close>

definition in_order :: "lead \<Rightarrow> lead \<Rightarrow> bool" where
  "in_order a b =
     (tier a < tier b \<or>
      (tier a = tier b \<and> val_le (num_val (review_count b)) (num_val (review_count a))))"

text \<open>
  A code for the values other than NaN that keeps their order, for sorting by a linear
  order.
\<close>

fun val_code :: "pyfloat \<Rightarrow> int \<times> rat" where
  "val_code FNegInf = (- 1, 0)"
| "val_code (FVal a) = (0, a)"
| "val_code FInf = (1, 0)"
| "val_code FNaN = (2, 0)"





section \<open>Sample records\<close>

text \<open>A plumber without a website, with five reviews and a phone.\<close>

definition sample_plumber :: json where
  "sample_plumber =
     JObj [(''title'', JStr ''Instalatii Popescu''), (''web_site'', JStr []),
           (''review_count'', JNum (PyInt 5)), (''phone'', JStr ''0722123456''),
           (''categories'', JArr [JStr ''plumber''])]"

definition plumber_lead :: lead where
  "plumber_lead =
     \<lparr>tier = 1, title = ''Instalatii Popescu'', category = JStr [],
      phone = ''0722123456'', emails = [], review_count = PyInt 5,
      review_rating = JNum (PyInt 0), address = JStr [], google_maps_link = JStr [],
      status = JStr []\<rparr>"

text \<open>Two listings of one salon: same title and phone, more reviews in the second.\<close>

definition salon_first :: json where
  "salon_first =
     JObj [(''title'', JStr ''ABC Salon''), (''phone'', JStr ''0733000000''),
           (''review_count'', JNum (PyInt 3))]"

definition salon_second :: json where
  "salon_second =
     JObj [(''title'', JStr ''ABC Salon''), (''phone'', JStr ''0733000000''),
           (''review_count'', JNum (PyInt 9))]"

definition salon_lead :: lead where
  "salon_lead =
     \<lparr>tier = 2, title = ''ABC Salon'', category = JStr [],
      phone = ''0733000000'', emails = [], review_count = PyInt 3,
      review_rating = JNum (PyInt 0), address = JStr [], google_maps_link = JStr [],
      status = JStr []\<rparr>"

text \<open>A listing whose rating is null.\<close>

definition unrated :: json where
  "unrated =
     JObj [(''title'', JStr ''Cafe''), (''phone'', JStr ''021''),
           (''review_count'', JNum (PyInt 2)), (''review_rating'', JNull)]"

text \<open>Two listings with different titles and phones and the same dedup key.\<close>

definition bar_in_title :: json where
  "bar_in_title =
     JObj [(''title'', JStr ''A|B''), (''phone'', JStr ''C''),
           (''review_count'', JNum (PyInt 1))]"

definition bar_in_phone :: json where
  "bar_in_phone =
     JObj [(''title'', JStr ''A''), (''phone'', JStr ''B|C''),
           (''review_count'', JNum (PyInt 1))]"

text \<open>A listing whose review count is a string.\<close>

definition count_as_text :: json where
  "count_as_text =
     JObj [(''title'', JStr ''Cafe''), (''phone'', JStr ''021''),
           (''review_count'', JStr ''5'')]"

text \<open>Three listings of one tier with the counts 3, NaN and 5.\<close>

definition count_three :: json where
  "count_three =
     JObj [(''title'', JStr ''Cafe A''), (''phone'', JStr ''021''),
           (''review_count'', JNum (PyInt 3))]"

definition count_nan :: json where
  "count_nan =
     JObj [(''title'', JStr ''Cafe B''), (''phone'', JStr ''021''),
           (''review_count'', JNum (PyFloat FNaN))]"

definition count_five :: json where
  "count_five =
     JObj [(''title'', JStr ''Cafe C''), (''phone'', JStr ''021''),
           (''review_count'', JNum (PyInt 5))]"

text \<open>A listing with the title and phone of the one with the NaN count, and five reviews.\<close>

definition cafe_b_five :: json where
  "cafe_b_five =
     JObj [(''title'', JStr ''Cafe B''), (''phone'', JStr ''021''),
           (''review_count'', JNum (PyInt 5))]"

text \<open>The lead of a listing without categories that has the phone \<open>021\<close>.\<close>

definition cafe_lead :: "string \<Rightarrow> number \<Rightarrow> lead" where
  "cafe_lead t n =
     \<lparr>tier = 3, title = t, category = JStr [], phone = ''021'', emails = [],
      review_count = n, review_rating = JNum (PyInt 0), address = JStr [],
      google_maps_link = JStr [], status = JStr []\<rparr>"

text \<open>
  What \<^verbatim>\<open>json.loads\<close> does on some lines: the values of five objects, \<^verbatim>\<open>ValueError\<close> on
  an integer of 5000 digits (the limit is 4300), \<^verbatim>\<open>JSONDecodeError\<close> on the others.
\<close>

definition sample_table :: "(string \<times> json) list" where
  \<open>sample_table =
     [(''{"title": "ABC Salon", "phone": "0733000000", "review_count": 3}'', salon_first),
      (''{"title": "ABC Salon", "phone": "0733000000", "review_count": 9}'', salon_second),
      (''{"title": "Cafe", "phone": "021", "review_count": 2, "review_rating": null}'',
       unrated),
      (''{"title": "Cafe", "phone": "021", "review_count": "5"}'', count_as_text),
      (''{"title": "Cafe B", "phone": "021", "review_count": NaN}'', count_nan)]\<close>

definition long_integer :: string where
  "long_integer = replicate 5000 (CHR ''1'')"

definition sample_loads :: "string \<Rightarrow> exc + json" where
  "sample_loads s =
     (if s = long_integer then Inl ValueError
      else (case map_of sample_table s of Some v \<Rightarrow> Inr v | None \<Rightarrow> Inl JSONDecodeError))"

text \<open>A row writer that writes the title and the phone, and never raises.\<close>

definition sample_row :: "lead \<Rightarrow> exc + string" where
  "sample_row l = Inr (title l @ '','' @ phone l @ [CHR 0x0D, CHR 0x0A])"


text \<open>An arrangement that leaves every lead in its place.\<close>

definition in_place :: "lead list \<Rightarrow> nat list" where
  "in_place ls = [0..<length ls]"

definition salon_lines :: "string list" where
  \<open>salon_lines =
     [''{"title": "ABC Salon", "phone": "0733000000", "review_count": 3}'',
      [],
      ''not json'',
      ''{"title": "ABC Salon", "phone": "0733000000", "review_count": 9}'']\<close>

definition salon_file :: files where
  "salon_file = [INPUT_FILE \<mapsto> Text salon_lines]"



text \<open>A salon line, the long integer, a salon line.\<close>

definition long_integer_lines :: "string list" where
  \<open>long_integer_lines =
     [''{"title": "ABC Salon", "phone": "0733000000", "review_count": 3}'',
      long_integer,
      ''{"title": "ABC Salon", "phone": "0733000000", "review_count": 9}'']\<close>

definition long_integer_file :: files where
  "long_integer_file = [INPUT_FILE \<mapsto> Text long_integer_lines]"

text \<open>The leads of the two listings with the same dedup key.\<close>

definition bar_in_title_lead :: lead where
  "bar_in_title_lead =
     \<lparr>tier = 3, title = ''A|B'', category = JStr [], phone = ''C'', emails = [],
      review_count = PyInt 1, review_rating = JNum (PyInt 0), address = JStr [],
      google_maps_link = JStr [], status = JStr []\<rparr>"

definition bar_in_phone_lead :: lead where
  "bar_in_phone_lead =
     \<lparr>tier = 3, title = ''A'', category = JStr [], phone = ''B|C'', emails = [],
      review_count = PyInt 1, review_rating = JNum (PyInt 0), address = JStr [],
      google_maps_link = JStr [], status = JStr []\<rparr>"

section \<open>The loader returns the parsed lines, or raises\<close>

lemma load_loop_concat:
  assumes "\<forall>l \<in> set ls. \<forall>x. loads (strip l) = Inl x \<longrightarrow> strip l = [] \<or> x = JSONDecodeError"
  shows "load_loop loads ls acc =
     Inr (acc @ concat (map (\<lambda>l. if strip l = [] then []
                                   else (case loads (strip l) of Inl x \<Rightarrow> [] | Inr entry \<Rightarrow> [entry])) ls))"
  using assms
proof (induction ls arbitrary: acc)
  case Nil
  then show ?case by simp
next
  case (Cons l ls)
  then have rest: "\<forall>l \<in> set ls. \<forall>x. loads (strip l) = Inl x \<longrightarrow> strip l = [] \<or> x = JSONDecodeError"
    and here: "\<forall>x. loads (strip l) = Inl x \<longrightarrow> strip l = [] \<or> x = JSONDecodeError"
    by simp_all
  show ?case
  proof (cases "strip l = []")
    case True
    then show ?thesis using Cons.IH[OF rest] by simp
  next
    case False
    show ?thesis
    proof (cases "loads (strip l)")
      case (Inl x)
      with here False have "x = JSONDecodeError" by simp
      with Inl False show ?thesis using Cons.IH[OF rest] by simp
    next
      case (Inr entry)
      with False show ?thesis using Cons.IH[OF rest] by simp
    qed
  qed
qed

lemma load_loop_raises:
  assumes "\<forall>l \<in> set pre. \<forall>x. loads (strip l) = Inl x \<longrightarrow> strip l = [] \<or> x = JSONDecodeError"
    and "strip l \<noteq> []" and "loads (strip l) = Inl x" and "x \<noteq> JSONDecodeError"
  shows "load_loop loads (pre @ l # post) acc = Inl x"
  using assms(1)
proof (induction pre arbitrary: acc)
  case Nil
  with assms(2-4) show ?case by simp
next
  case (Cons k pre)
  then have rest: "\<forall>l \<in> set pre. \<forall>x. loads (strip l) = Inl x \<longrightarrow> strip l = [] \<or> x = JSONDecodeError"
    and here: "\<forall>x. loads (strip k) = Inl x \<longrightarrow> strip k = [] \<or> x = JSONDecodeError"
    by simp_all
  show ?case
  proof (cases "strip k = []")
    case True
    then show ?thesis using Cons.IH[OF rest] by simp
  next
    case False
    show ?thesis
    proof (cases "loads (strip k)")
      case (Inl y)
      with here False have "y = JSONDecodeError" by simp
      with Inl False show ?thesis using Cons.IH[OF rest] by simp
    next
      case (Inr entry)
      with False show ?thesis using Cons.IH[OF rest] by simp
    qed
  qed
qed

text \<open>
  C7, amended. When \<open>loads\<close> raises nothing but \<^verbatim>\<open>JSONDecodeError\<close> on the lines, the
  loader returns the records parsed from them, in line order: a line that is blank once
  stripped gives nothing, a line on which \<open>loads\<close> raises \<^verbatim>\<open>JSONDecodeError\<close> gives
  nothing, and any other line gives exactly the one record parsed from it. The first line
  on which \<open>loads\<close> raises another exception ends the loader with that exception.
\<close>

theorem loader_sequence:
  "((\<forall>l \<in> set ls. \<forall>x. loads (strip l) = Inl x \<longrightarrow> strip l = [] \<or> x = JSONDecodeError) \<longrightarrow>
      load loads ls =
        Inr (concat (map (\<lambda>l. if strip l = [] then []
                               else (case loads (strip l) of Inl x \<Rightarrow> [] | Inr entry \<Rightarrow> [entry])) ls))) \<and>
   ((\<forall>l \<in> set pre. \<forall>x. loads (strip l) = Inl x \<longrightarrow> strip l = [] \<or> x = JSONDecodeError) \<and>
    strip k \<noteq> [] \<and> loads (strip k) = Inl y \<and> y \<noteq> JSONDecodeError \<longrightarrow>
      load loads (pre @ k # post) = Inl y)"
  using load_loop_concat[of ls loads "[]"] load_loop_raises[of pre loads k y post "[]"]
  by (simp add: load_def)

lemma strip_long_integer: "strip long_integer = long_integer"
  by (simp add: strip_def long_integer_def isspace_def)

lemma long_integer_raises:
  "strip long_integer \<noteq> []" "sample_loads (strip long_integer) = Inl ValueError"
  by (simp_all add: strip_long_integer sample_loads_def) (simp add: long_integer_def)

lemma salon_lines_caught:
  "\<forall>l \<in> set salon_lines. \<forall>x. sample_loads (strip l) = Inl x \<longrightarrow>
     strip l = [] \<or> x = JSONDecodeError"
proof -
  have "list_all (\<lambda>l. strip l = [] \<or>
          (case sample_loads (strip l) of Inl x \<Rightarrow> x = JSONDecodeError | Inr v \<Rightarrow> True))
        salon_lines"
    by code_simp
  then show ?thesis by (auto simp: list_all_iff split: sum.splits)
qed

theorem loader_sequence_witness:
  "load sample_loads salon_lines = Inr [salon_first, salon_second] \<and>
   load sample_loads ([hd salon_lines] @ long_integer # tl salon_lines) = Inl ValueError"
proof -
  have c: "concat (map (\<lambda>l. if strip l = [] then []
                    else (case sample_loads (strip l) of Inl x \<Rightarrow> [] | Inr entry \<Rightarrow> [entry]))
             salon_lines) = [salon_first, salon_second]"
    by code_simp
  have pre: "\<forall>l \<in> set [hd salon_lines]. \<forall>x. sample_loads (strip l) = Inl x \<longrightarrow>
              strip l = [] \<or> x = JSONDecodeError"
    using salon_lines_caught by (simp add: salon_lines_def)
  note t = loader_sequence[of _ sample_loads]
  from t[of salon_lines] salon_lines_caught c
  have 1: "load sample_loads salon_lines = Inr [salon_first, salon_second]" by simp
  from t[of "[]" "[hd salon_lines]" long_integer ValueError "tl salon_lines"]
    pre long_integer_raises
  have 2: "load sample_loads ([hd salon_lines] @ long_integer # tl salon_lines) = Inl ValueError"
    by simp
  from 1 2 show ?thesis by simp
qed

lemma main_load_raises:
  "fs INPUT_FILE = Some (Text ls) \<Longrightarrow> load loads ls = Inl x \<Longrightarrow>
   main loads arrange row fs = (Raised x, [], fs)"
  by (simp add: main_def)

text \<open>
  The second of three lines is an integer of 5000 digits, on which \<^verbatim>\<open>json.loads\<close> raises
  \<^verbatim>\<open>ValueError\<close>: the line is not dropped and the third line is not read; the run ends
  with exit status 1 and nothing printed.
\<close>

theorem loader_sequence_counterexample:
  "long_integer_file INPUT_FILE = Some (Text long_integer_lines) \<and>
   load sample_loads long_integer_lines = Inl ValueError \<and>
   main sample_loads in_place sample_row long_integer_file =
     (Raised ValueError, [], long_integer_file) \<and>
   exit_status (fst (main sample_loads in_place sample_row long_integer_file)) = 1"
proof -
  have f: "long_integer_file INPUT_FILE = Some (Text long_integer_lines)"
    by (simp add: long_integer_file_def)
  have pre: "\<forall>l \<in> set [hd salon_lines]. \<forall>x. sample_loads (strip l) = Inl x \<longrightarrow>
              strip l = [] \<or> x = JSONDecodeError"
    using salon_lines_caught by (simp add: salon_lines_def)
  have r: "load_loop sample_loads ([hd salon_lines] @ long_integer # [last salon_lines]) [] =
          Inl ValueError"
    using pre long_integer_raises by (rule load_loop_raises) simp
  have e: "[hd salon_lines] @ long_integer # [last salon_lines] = long_integer_lines"
    by (simp add: salon_lines_def long_integer_lines_def)
  have l: "load sample_loads long_integer_lines = Inl ValueError"
    unfolding load_def using r unfolding e .
  from main_load_raises[where fs = long_integer_file, OF f l] f l show ?thesis by simp
qed

section \<open>Substrings and the keyword tables\<close>

lemma starts_with_iff: "starts_with kw t \<longleftrightarrow> (\<exists>post. t = kw @ post)"
  by (induction kw t rule: starts_with.induct) auto

lemma contains_iff: "contains kw t \<longleftrightarrow> occurs_in kw t"
proof (induction t)
  case Nil
  then show ?case by (auto simp: occurs_in_def)
next
  case (Cons c cs)
  show ?case
  proof
    assume "contains kw (c # cs)"
    then consider "starts_with kw (c # cs)" | "contains kw cs" by auto
    then show "occurs_in kw (c # cs)"
    proof cases
      case 1
      then obtain post where "c # cs = kw @ post" by (auto simp: starts_with_iff)
      then have "c # cs = [] @ kw @ post" by simp
      then show ?thesis unfolding occurs_in_def by blast
    next
      case 2
      with Cons obtain pre post where "cs = pre @ kw @ post" by (auto simp: occurs_in_def)
      then have "c # cs = (c # pre) @ kw @ post" by simp
      then show ?thesis unfolding occurs_in_def by blast
    qed
  next
    assume "occurs_in kw (c # cs)"
    then obtain pre post where eq: "c # cs = pre @ kw @ post" by (auto simp: occurs_in_def)
    show "contains kw (c # cs)"
    proof (cases pre)
      case Nil
      with eq have "starts_with kw (c # cs)" by (auto simp: starts_with_iff)
      then show ?thesis by simp
    next
      case (Cons p ps)
      with eq have "cs = ps @ kw @ post" by simp
      then have "occurs_in kw cs" unfolding occurs_in_def by blast
      with Cons.IH show ?thesis by simp
    qed
  qed
qed

lemma any_keyword_iff: "any_keyword kws t \<longleftrightarrow> (\<exists>kw \<in> set kws. occurs_in kw t)"
  by (induction kws) (auto simp: contains_iff)

text \<open>A keyword that does not end in \<open>c\<close> is not found by appending \<open>c\<close> to the text.\<close>

lemma occurs_in_trailing:
  assumes "kw \<noteq> []" "last kw \<noteq> c"
  shows "occurs_in kw (s @ [c]) \<longleftrightarrow> occurs_in kw s"
proof
  assume "occurs_in kw (s @ [c])"
  then obtain pre post where eq: "s @ [c] = pre @ kw @ post" by (auto simp: occurs_in_def)
  show "occurs_in kw s"
  proof (cases post rule: rev_cases)
    case Nil
    with eq have "s @ [c] = (pre @ butlast kw) @ [last kw]" using assms(1) by simp
    then have "c = last kw" by (metis last_snoc)
    with assms(2) show ?thesis by simp
  next
    case (snoc ps p)
    with eq have "s @ [c] = (pre @ kw @ ps) @ [p]" by simp
    then have "s = pre @ kw @ ps" by (metis butlast_snoc)
    then show ?thesis unfolding occurs_in_def by blast
  qed
next
  assume "occurs_in kw s"
  then obtain pre post where "s = pre @ kw @ post" by (auto simp: occurs_in_def)
  then have "s @ [c] = pre @ kw @ (post @ [c])" by simp
  then show "occurs_in kw (s @ [c])" unfolding occurs_in_def by blast
qed

lemma keywords_end:
  "\<forall>kw \<in> set (TIER1_KEYWORDS @ TIER2_KEYWORDS). kw \<noteq> [] \<and> last kw \<noteq> CHR '' ''"
  by (simp add: TIER1_KEYWORDS_def TIER2_KEYWORDS_def)

lemma lower_space: "lower (t @ '' '') = lower t @ '' ''"
  by (simp add: lower_def lower_char_def)

text \<open>
  With no category the program's text is the title and one space, the search string the
  title alone: no keyword tells them apart.
\<close>

lemma any_keyword_text:
  assumes "set kws \<subseteq> set (TIER1_KEYWORDS @ TIER2_KEYWORDS)"
  shows "any_keyword kws (lower (t @ '' '' @ join '' '' cs)) \<longleftrightarrow>
         (\<exists>kw \<in> set kws. occurs_in kw (search_text t cs))"
proof (cases cs)
  case Nil
  have "\<And>kw. kw \<in> set kws \<Longrightarrow> occurs_in kw (lower t @ '' '') \<longleftrightarrow> occurs_in kw (lower t)"
    using assms keywords_end by (intro occurs_in_trailing) auto
  with Nil show ?thesis
    using lower_space[of t] by (auto simp: any_keyword_iff search_text_def)
next
  case (Cons a list)
  then show ?thesis by (simp add: any_keyword_iff search_text_def)
qed

text \<open>
  C2. For every title and every list of category strings \<open>classify_tier\<close> returns 1, 2
  or 3: 1 exactly when the search string (title and categories joined by single spaces,
  lowercased) contains a tier-1 keyword, 2 exactly when it contains no tier-1 keyword but a
  tier-2 keyword, and 3 exactly when it contains neither. It is a function, total on its
  arguments.
\<close>

theorem classify_tier_spec:
  "classify_tier t cs \<in> {1, 2, 3} \<and>
   (classify_tier t cs = 1 \<longleftrightarrow> (\<exists>kw \<in> set TIER1_KEYWORDS. occurs_in kw (search_text t cs))) \<and>
   (classify_tier t cs = 2 \<longleftrightarrow>
      \<not> (\<exists>kw \<in> set TIER1_KEYWORDS. occurs_in kw (search_text t cs)) \<and>
      (\<exists>kw \<in> set TIER2_KEYWORDS. occurs_in kw (search_text t cs))) \<and>
   (classify_tier t cs = 3 \<longleftrightarrow>
      \<not> (\<exists>kw \<in> set TIER1_KEYWORDS. occurs_in kw (search_text t cs)) \<and>
      \<not> (\<exists>kw \<in> set TIER2_KEYWORDS. occurs_in kw (search_text t cs)))"
proof -
  have 1: "any_keyword TIER1_KEYWORDS (lower (t @ '' '' @ join '' '' cs)) \<longleftrightarrow>
           (\<exists>kw \<in> set TIER1_KEYWORDS. occurs_in kw (search_text t cs))"
    by (rule any_keyword_text) simp
  have 2: "any_keyword TIER2_KEYWORDS (lower (t @ '' '' @ join '' '' cs)) \<longleftrightarrow>
           (\<exists>kw \<in> set TIER2_KEYWORDS. occurs_in kw (search_text t cs))"
    by (rule any_keyword_text) simp
  show ?thesis
    unfolding classify_tier_def Let_def 1 2 by simp
qed

theorem classify_tier_spec_witness:
  "classify_tier ''Instalatii Popescu'' [''plumber''] = 1 \<and>
   (\<exists>kw \<in> set TIER1_KEYWORDS. occurs_in kw (search_text ''Instalatii Popescu'' [''plumber'']))"
proof -
  have "classify_tier ''Instalatii Popescu'' [''plumber''] = 1" by code_simp
  with classify_tier_spec[of "''Instalatii Popescu''" "[''plumber'']"] show ?thesis by simp
qed


section \<open>One record\<close>

lemma bindE_Inr: "bindE m f = Inr r \<longleftrightarrow> (\<exists>v. m = Inr v \<and> f v = Inr r)"
  by (cases m) auto

lemma bindE_Inl: "bindE m f = Inl x \<longleftrightarrow> m = Inl x \<or> (\<exists>v. m = Inr v \<and> f v = Inl x)"
  by (cases m) auto

lemma strip_Nil: "strip [] = []"
  by (simp add: strip_def)

lemma py_get_field: "py_get e k = Inr v \<Longrightarrow> field e k = v"
  by (cases e) (auto simp: field_def)

lemma has_text_truthy: "has_text (Some v) \<Longrightarrow> truthy v"
  by (cases v) (auto simp: strip_Nil)

lemma get_stripped_Nil: "get_stripped e k = Inr [] \<Longrightarrow> \<not> has_text (field e k)"
  by (auto simp: get_stripped_def strip_Nil dest!: py_get_field dest: has_text_truthy
           split: sum.splits option.splits if_splits json.splits)

lemma get_stripped_text: "get_stripped e k = Inr s \<Longrightarrow> s \<noteq> [] \<Longrightarrow> has_text (field e k)"
  by (auto simp: get_stripped_def strip_Nil dest!: py_get_field
           split: sum.splits option.splits if_splits json.splits)

lemma get_or_truthy: "get_or e k d = Inr v \<Longrightarrow> v \<noteq> d \<Longrightarrow> field e k = Some v \<and> truthy v"
  by (auto simp: get_or_def dest!: py_get_field split: sum.splits option.splits if_splits)

lemma get_default_field:
  "get_default e k d = Inr v \<Longrightarrow> v = (case field e k of None \<Rightarrow> d | Some w \<Rightarrow> w)"
  by (auto simp: get_default_def dest!: py_get_field split: sum.splits option.splits)

text \<open>What the locals of a record that passes the three tests are.\<close>

lemma qualify_SomeD:
  assumes "qualify e = Inr (Some c)"
  shows "get_stripped e ''web_site'' = Inr []"
    and "get_or e ''review_count'' (JNum (PyInt 0)) = Inr (JNum (c_review_count c))"
    and "\<not> val_lt (num_val (c_review_count c)) (FVal 1)"
    and "get_stripped e ''phone'' = Inr (c_phone c)"
    and "get_or e ''emails'' (JArr []) = Inr (c_emails c)"
    and "get_stripped e ''title'' = Inr (c_title c)"
    and "c_phone c \<noteq> [] \<or> truthy (c_emails c)"
proof -
  from assms obtain w rc ph em ti where
    g: "get_stripped e ''web_site'' = Inr w"
       "get_or e ''review_count'' (JNum (PyInt 0)) = Inr rc"
       "get_stripped e ''phone'' = Inr ph"
       "get_or e ''emails'' (JArr []) = Inr em"
       "get_stripped e ''title'' = Inr ti"
    and r: "(if w \<noteq> [] then Inr None
             else (case rc of
                     JNum n \<Rightarrow>
                       if val_lt (num_val n) (FVal 1) then Inr None
                       else if ph = [] \<and> \<not> truthy em then Inr None
                       else Inr (Some \<lparr>c_title = ti, c_phone = ph, c_emails = em,
                                       c_review_count = n\<rparr>)
                   | _ \<Rightarrow> Inl TypeError)) = (Inr (Some c) :: exc + candidate option)"
    unfolding qualify_def bindE_Inr by blast
  from r have w: "w = []" by (auto split: if_splits)
  from r w obtain n where rc: "rc = JNum n" by (cases rc) auto
  from r w rc have n: "\<not> val_lt (num_val n) (FVal 1)" and pe: "\<not> (ph = [] \<and> \<not> truthy em)"
    and c: "c = \<lparr>c_title = ti, c_phone = ph, c_emails = em, c_review_count = n\<rparr>"
    by (auto split: if_splits)
  from g w rc n pe c
  show "get_stripped e ''web_site'' = Inr []"
    and "get_or e ''review_count'' (JNum (PyInt 0)) = Inr (JNum (c_review_count c))"
    and "\<not> val_lt (num_val (c_review_count c)) (FVal 1)"
    and "get_stripped e ''phone'' = Inr (c_phone c)"
    and "get_or e ''emails'' (JArr []) = Inr (c_emails c)"
    and "get_stripped e ''title'' = Inr (c_title c)"
    and "c_phone c \<noteq> [] \<or> truthy (c_emails c)"
    by auto
qed

lemma qualify_no_website: "qualify e = Inr (Some c) \<Longrightarrow> no_website e"
  by (simp add: no_website_def get_stripped_Nil qualify_SomeD(1))

lemma qualify_count:
  assumes "qualify e = Inr (Some c)"
  shows "field e ''review_count'' = Some (JNum (c_review_count c))"
proof -
  let ?n = "c_review_count c"
  have "JNum ?n \<noteq> JNum (PyInt 0)"
    using qualify_SomeD(3)[OF assms] by auto
  with qualify_SomeD(2)[OF assms] show ?thesis
    by (auto dest: get_or_truthy)
qed

lemma not_below_one: "\<not> val_lt v (FVal 1) \<Longrightarrow> v \<noteq> FNaN \<Longrightarrow> val_le (FVal 1) v"
  by (cases v) (auto simp: val_le_def)

lemma qualify_has_reviews:
  assumes "qualify e = Inr (Some c)" and "\<not> nan_count e"
  shows "has_reviews e"
  using qualify_count[OF assms(1)] qualify_SomeD(3)[OF assms(1)] assms(2)
  by (simp add: has_reviews_def nan_count_def not_below_one)

lemma build_lead_emails:
  "build_lead c e = Inr l \<Longrightarrow> truthy (c_emails c) \<Longrightarrow> \<exists>items. join_items (c_emails c) = Inr items"
  by (auto simp: build_lead_def bindE_Inr split: if_splits)

lemma join_items_len: "join_items v = Inr items \<Longrightarrow> truthy v \<Longrightarrow> \<exists>n. py_len v = Some n \<and> 0 < n"
  by (cases v) (auto split: if_splits)

lemma produced_has_contact:
  assumes q: "qualify e = Inr (Some c)" and b: "build_lead c e = Inr l"
  shows "has_contact e"
proof (cases "c_phone c = []")
  case False
  with qualify_SomeD(4)[OF q] have "has_text (field e ''phone'')"
    by (rule get_stripped_text)
  then show ?thesis by (simp add: has_contact_def)
next
  case True
  with qualify_SomeD(7)[OF q] have t: "truthy (c_emails c)" by simp
  then have "c_emails c \<noteq> JArr []" by auto
  with qualify_SomeD(5)[OF q] have f: "field e ''emails'' = Some (c_emails c)"
    by (auto dest: get_or_truthy)
  from build_lead_emails[OF b t] obtain items where "join_items (c_emails c) = Inr items" ..
  from join_items_len[OF this t] f show ?thesis
    by (auto simp: has_contact_def)
qed

lemma build_lead_title_phone:
  "build_lead c e = Inr l \<Longrightarrow> title l = c_title c \<and> phone l = c_phone c"
  by (auto simp: build_lead_def bindE_Inr)

lemma build_lead_rating:
  assumes "build_lead c e = Inr l"
  shows "review_rating l = (case field e ''review_rating'' of None \<Rightarrow> JNum (PyInt 0) | Some v \<Rightarrow> v)"
proof -
  from assms obtain rr where "get_default e ''review_rating'' (JNum (PyInt 0)) = Inr rr"
    and "review_rating l = rr"
    unfolding build_lead_def bindE_Inr by auto
  then show ?thesis by (simp add: get_default_field)
qed

text \<open>The key the loop computes is the dedup key of the record.\<close>

lemma get_stripped_field: "get_stripped e k = Inr s \<Longrightarrow> s = strip (text_of (field e k))"
proof -
  assume a: "get_stripped e k = Inr s"
  then obtain v where g: "py_get e k = Inr v"
    by (auto simp: get_stripped_def split: sum.splits)
  then have f: "field e k = v" by (rule py_get_field)
  show ?thesis
  proof (cases v)
    case None
    with a g f show ?thesis by (simp add: get_stripped_def)
  next
    case (Some w)
    with a g f show ?thesis
      by (cases w) (auto simp: get_stripped_def split: if_splits)
  qed
qed

lemma qualify_key:
  assumes "qualify e = Inr (Some c)"
  shows "dedup_key c = record_key e"
  using get_stripped_field[OF qualify_SomeD(6)[OF assms]]
    get_stripped_field[OF qualify_SomeD(4)[OF assms]]
  by (simp add: dedup_key_def record_key_def)

text \<open>A qualifying record is one whose count is not below 1.\<close>

lemma qualifying_not_below:
  "qualifying e =
     (no_website e \<and>
      (case count_of (field e ''review_count'') of
         Some v \<Rightarrow> \<not> val_lt v (FVal 1)
       | None \<Rightarrow> False) \<and>
      has_contact e)"
proof -
  have "(has_reviews e \<or> nan_count e) =
        (case count_of (field e ''review_count'') of
           Some v \<Rightarrow> \<not> val_lt v (FVal 1)
         | None \<Rightarrow> False)"
  proof (cases "count_of (field e ''review_count'')")
    case None
    then show ?thesis by (simp add: has_reviews_def nan_count_def)
  next
    case (Some v)
    then show ?thesis
      by (cases v) (auto simp: has_reviews_def nan_count_def val_le_def)
  qed
  then show ?thesis by (simp add: qualifying_def)
qed

text \<open>A record that gives a lead is qualifying, and a qualifying record passes the tests.\<close>

lemma produced_qualifying:
  assumes q: "qualify e = Inr (Some c)" and b: "build_lead c e = Inr l"
  shows "qualifying e"
  using qualify_no_website[OF q] qualify_count[OF q] qualify_SomeD(3)[OF q]
    produced_has_contact[OF q b]
  by (simp add: qualifying_not_below)

lemma has_text_get_stripped:
  "has_text (field e k) \<Longrightarrow> get_stripped e k = Inr s \<Longrightarrow> s \<noteq> []"
proof -
  assume h: "has_text (field e k)" and a: "get_stripped e k = Inr s"
  from a have "s = strip (text_of (field e k))" by (rule get_stripped_field)
  moreover from h obtain t where "field e k = Some (JStr t)" "strip t \<noteq> []"
    by (cases "field e k" rule: has_text.cases) auto
  ultimately show ?thesis by simp
qed

lemma get_or_field:
  "get_or e k d = Inr v \<Longrightarrow> field e k = Some w \<Longrightarrow> truthy w \<Longrightarrow> v = w"
  by (auto simp: get_or_def dest!: py_get_field split: sum.splits option.splits if_splits)

lemma py_len_truthy: "py_len v = Some n \<Longrightarrow> 0 < n \<Longrightarrow> truthy v"
  by (cases v) auto

lemma qualifying_passes:
  assumes "qualifying e" and "qualify e = Inr r"
  shows "\<exists>c. r = Some c"
proof -
  from assms(2) obtain w rc ph em ti where
    g: "get_stripped e ''web_site'' = Inr w"
       "get_or e ''review_count'' (JNum (PyInt 0)) = Inr rc"
       "get_stripped e ''phone'' = Inr ph"
       "get_or e ''emails'' (JArr []) = Inr em"
       "get_stripped e ''title'' = Inr ti"
    and r: "(if w \<noteq> [] then Inr None
             else (case rc of
                     JNum n \<Rightarrow>
                       if val_lt (num_val n) (FVal 1) then Inr None
                       else if ph = [] \<and> \<not> truthy em then Inr None
                       else Inr (Some \<lparr>c_title = ti, c_phone = ph, c_emails = em,
                                       c_review_count = n\<rparr>)
                   | _ \<Rightarrow> Inl TypeError)) = (Inr r :: exc + candidate option)"
    unfolding qualify_def bindE_Inr by blast
  from assms(1) have nw: "no_website e" and hc: "has_contact e"
    and cnt: "case count_of (field e ''review_count'') of
                Some v \<Rightarrow> \<not> val_lt v (FVal 1) | None \<Rightarrow> False"
    by (simp_all add: qualifying_not_below)
  have w: "w = []"
  proof (rule ccontr)
    assume "w \<noteq> []"
    with g(1) have "has_text (field e ''web_site'')" by (rule get_stripped_text)
    with nw show False by (simp add: no_website_def)
  qed
  from cnt obtain n where n: "field e ''review_count'' = Some (JNum n)"
    and nb: "\<not> val_lt (num_val n) (FVal 1)"
    by (cases "field e ''review_count''" rule: count_of.cases) auto
  from nb have "truthy (JNum n)" by (cases "num_val n") auto
  with g(2) n have rc: "rc = JNum n" by (rule get_or_field)
  have pe: "\<not> (ph = [] \<and> \<not> truthy em)"
  proof (cases "has_text (field e ''phone'')")
    case True
    then have "ph \<noteq> []" using g(3) by (rule has_text_get_stripped)
    then show ?thesis by simp
  next
    case False
    with hc obtain v k where v: "field e ''emails'' = Some v" "py_len v = Some k" "0 < k"
      by (auto simp: has_contact_def split: option.splits)
    from v(2,3) have t: "truthy v" by (rule py_len_truthy)
    with g(4) v(1) have "em = v" by (rule get_or_field)
    with t show ?thesis by simp
  qed
  from r w rc nb pe show ?thesis by (auto split: if_splits)
qed
section \<open>The filter loop\<close>

text \<open>The three ways one iteration goes when the loop comes to its end.\<close>

lemma filter_loop_ConsE [consumes 1, case_names skip dup keep]:
  assumes "filter_loop (e # es) seen acc = Inr r"
  obtains "qualify e = Inr None" "filter_loop es seen acc = Inr r"
  | c where "qualify e = Inr (Some c)" "dedup_key c \<in> seen" "filter_loop es seen acc = Inr r"
  | c l where "qualify e = Inr (Some c)" "dedup_key c \<notin> seen" "build_lead c e = Inr l"
      "filter_loop es (insert (dedup_key c) seen) (acc @ [l]) = Inr r"
  using assms by (auto split: sum.splits option.splits if_splits)

lemma filter_entries_loop:
  "filter_entries es = Inr leads \<longleftrightarrow> (\<exists>seen'. filter_loop es {} [] = Inr (seen', leads))"
  by (auto simp: filter_entries_def split: sum.splits)

text \<open>Every lead of the result was there before or was built from a record that passed.\<close>

lemma filter_loop_origin:
  "filter_loop es seen acc = Inr (seen', leads) \<Longrightarrow> l \<in> set leads \<Longrightarrow>
   l \<in> set acc \<or> (\<exists>e \<in> set es. \<exists>c. qualify e = Inr (Some c) \<and> build_lead c e = Inr l)"
proof (induction es arbitrary: seen acc)
  case Nil
  then show ?case by simp
next
  case (Cons e es)
  from Cons.prems(1) show ?case
  proof (cases rule: filter_loop_ConsE)
    case skip
    from Cons.IH[OF skip(2) Cons.prems(2)] show ?thesis by auto
  next
    case (dup c)
    from Cons.IH[OF dup(3) Cons.prems(2)] show ?thesis by auto
  next
    case (keep c l')
    from Cons.IH[OF keep(4) Cons.prems(2)] keep(1,3) show ?thesis by auto
  qed
qed


text \<open>
  A record gives a lead only if it is qualifying: its \<open>web_site\<close> holds no text other than
  whitespace, its \<open>review_count\<close> (0 when absent or null) is not below 1, and its phone
  holds text other than whitespace or its \<open>emails\<close> is a non-empty sequence. Unless the
  count is NaN it is then at least 1. Every lead that the filter returns is the lead of
  such a record of the input.
\<close>

lemma leads_satisfy_predicates_unless_nan:
  "(lead_of e = Inr l \<longrightarrow>
      no_website e \<and> (\<not> nan_count e \<longrightarrow> has_reviews e) \<and> has_contact e \<and> qualifying e) \<and>
   (filter_entries es = Inr leads \<and> l \<in> set leads \<longrightarrow>
      (\<exists>e \<in> set es. lead_of e = Inr l \<and> no_website e \<and> (\<not> nan_count e \<longrightarrow> has_reviews e) \<and>
         has_contact e \<and> qualifying e))"
proof (intro conjI impI)
  assume "lead_of e = Inr l"
  then obtain c where q: "qualify e = Inr (Some c)" and b: "build_lead c e = Inr l"
    by (auto simp: lead_of_def split: sum.splits option.splits)
  from q show "no_website e" by (rule qualify_no_website)
  from q b show "has_contact e" by (rule produced_has_contact)
  from q b show "qualifying e" by (rule produced_qualifying)
  assume "\<not> nan_count e"
  with q show "has_reviews e" by (rule qualify_has_reviews)
next
  assume a: "filter_entries es = Inr leads \<and> l \<in> set leads"
  then obtain seen' where run: "filter_loop es {} [] = Inr (seen', leads)"
    by (auto simp: filter_entries_loop)
  from a have "l \<in> set leads" by simp
  from filter_loop_origin[OF run this]
  obtain e c where e: "e \<in> set es" and q: "qualify e = Inr (Some c)"
    and b: "build_lead c e = Inr l"
    by auto
  from q b have "lead_of e = Inr l" by (simp add: lead_of_def)
  moreover from q have "no_website e" by (rule qualify_no_website)
  moreover from q have "\<not> nan_count e \<longrightarrow> has_reviews e" by (simp add: qualify_has_reviews)
  moreover from q b have "has_contact e" by (rule produced_has_contact)
  moreover from q b have "qualifying e" by (rule produced_qualifying)
  ultimately show "\<exists>e \<in> set es. lead_of e = Inr l \<and> no_website e \<and>
      (\<not> nan_count e \<longrightarrow> has_reviews e) \<and> has_contact e \<and> qualifying e"
    using e by blast
qed

text \<open>
  C1 fails on the code. A record whose \<open>review_count\<close> is NaN, with no website and with a
  phone, passes the test \<^verbatim>\<open>review_count < 1\<close>, which is false of NaN, and gives a lead,
  though its count is not at least 1.
\<close>

theorem nan_count_gives_lead:
  "field count_nan ''review_count'' = Some (JNum (PyFloat FNaN)) \<and>
   \<not> has_reviews count_nan \<and>
   lead_of count_nan = Inr (cafe_lead ''Cafe B'' (PyFloat FNaN)) \<and>
   filter_entries [count_nan] = Inr [cafe_lead ''Cafe B'' (PyFloat FNaN)]"
  by code_simp

text \<open>The keys of the leads are distinct and all in \<open>seen\<close>, and stay so.\<close>

lemma filter_loop_distinct:
  "filter_loop es seen acc = Inr (seen', leads) \<Longrightarrow>
   distinct (map (\<lambda>l. title l @ ''|'' @ phone l) acc) \<Longrightarrow>
   (\<lambda>l. title l @ ''|'' @ phone l) ` set acc \<subseteq> seen \<Longrightarrow>
   distinct (map (\<lambda>l. title l @ ''|'' @ phone l) leads)"
proof (induction es arbitrary: seen acc)
  case Nil
  then show ?case by simp
next
  case (Cons e es)
  from Cons.prems(1) show ?case
  proof (cases rule: filter_loop_ConsE)
    case skip
    from Cons.IH[OF skip(2) Cons.prems(2,3)] show ?thesis .
  next
    case (dup c)
    from Cons.IH[OF dup(3) Cons.prems(2,3)] show ?thesis .
  next
    case (keep c l)
    from build_lead_title_phone[OF keep(3)]
    have k: "title l @ ''|'' @ phone l = dedup_key c" by (simp add: dedup_key_def)
    with keep(2) Cons.prems(3)
    have "title l @ ''|'' @ phone l \<notin> (\<lambda>l. title l @ ''|'' @ phone l) ` set acc" by auto
    with Cons.prems(2)
    have d: "distinct (map (\<lambda>l. title l @ ''|'' @ phone l) (acc @ [l]))" by simp
    have s: "(\<lambda>l. title l @ ''|'' @ phone l) ` set (acc @ [l]) \<subseteq> insert (dedup_key c) seen"
      using k Cons.prems(3) by auto
    from Cons.IH[OF keep(4) d s] show ?thesis .
  qed
qed

lemma distinct_title_phone:
  "distinct (map (\<lambda>l. title l @ ''|'' @ phone l) ls) \<Longrightarrow> distinct (map title_phone ls)"
proof (induction ls)
  case Nil
  then show ?case by simp
next
  case (Cons a ls)
  have "title_phone a \<notin> title_phone ` set ls"
  proof
    assume "title_phone a \<in> title_phone ` set ls"
    then obtain b where b: "b \<in> set ls" "title_phone a = title_phone b" by blast
    from b(2) have "title a @ ''|'' @ phone a = title b @ ''|'' @ phone b"
      by (simp add: title_phone_def)
    moreover from b(1) have "title b @ ''|'' @ phone b \<in> (\<lambda>l. title l @ ''|'' @ phone l) ` set ls"
      by (rule imageI)
    ultimately show False using Cons.prems by simp
  qed
  with Cons show ?case by simp
qed

lemma filter_entries_distinct:
  assumes "filter_entries es = Inr leads"
  shows "distinct (map title_phone leads)"
proof -
  from assms obtain seen' where "filter_loop es {} [] = Inr (seen', leads)"
    by (auto simp: filter_entries_loop)
  from filter_loop_distinct[OF this] show ?thesis
    by (simp add: distinct_title_phone)
qed

text \<open>The loop over a list and then another is the loop over both.\<close>

lemma filter_loop_append:
  "filter_loop (xs @ ys) seen acc =
     bindE (filter_loop xs seen acc) (\<lambda>(s, a). filter_loop ys s a)"
  by (induction xs arbitrary: seen acc) (auto split: sum.splits option.splits)

text \<open>At the end \<open>seen\<close> holds the keys of all the records that passed the three tests.\<close>

lemma filter_loop_seen:
  "filter_loop es seen acc = Inr (seen', leads) \<Longrightarrow>
   seen' = seen \<union> {dedup_key c |e c. e \<in> set es \<and> qualify e = Inr (Some c)}"
proof (induction es arbitrary: seen acc)
  case Nil
  then show ?case by simp
next
  case (Cons e es)
  from Cons.prems(1) show ?case
  proof (cases rule: filter_loop_ConsE)
    case skip
    from Cons.IH[OF skip(2)] skip(1) show ?thesis by auto
  next
    case (dup c)
    from Cons.IH[OF dup(3)] dup(1,2) show ?thesis by auto
  next
    case (keep c l)
    from Cons.IH[OF keep(4)] keep(1) show ?thesis by auto
  qed
qed

lemma nths_cong_below:
  assumes "\<And>i. i < length xs \<Longrightarrow> i \<in> A \<longleftrightarrow> i \<in> B"
  shows "nths xs A = nths xs B"
proof -
  have "filter (\<lambda>p. snd p \<in> A) (zip xs [0..<length xs]) =
        filter (\<lambda>p. snd p \<in> B) (zip xs [0..<length xs])"
    using assms by (intro filter_cong) (auto dest: set_zip_rightD)
  then show ?thesis by (simp add: nths_def)
qed

lemma kept_positions_below:
  "i < length es \<Longrightarrow> i \<in> kept_positions (es @ [e]) \<longleftrightarrow> i \<in> kept_positions es"
  by (auto simp: kept_positions_def nth_append)

lemma kept_positions_last:
  "length es \<in> kept_positions (es @ [e]) \<longleftrightarrow>
   (\<exists>c. qualify e = Inr (Some c) \<and>
        dedup_key c \<notin> {dedup_key c' |e' c'. e' \<in> set es \<and> qualify e' = Inr (Some c')})"
proof -
  have "(\<forall>j<length es. \<forall>c'. qualify (es ! j) = Inr (Some c') \<longrightarrow> dedup_key c' \<noteq> k)
        \<longleftrightarrow> k \<notin> {dedup_key c' |e' c'. e' \<in> set es \<and> qualify e' = Inr (Some c')}" for k
    by (auto simp: in_set_conv_nth)
  then show ?thesis
    by (simp add: kept_positions_def nth_append)
qed

lemma nths_kept_positions_snoc:
  "nths (es @ [e]) (kept_positions (es @ [e])) =
     nths es (kept_positions es) @ (if length es \<in> kept_positions (es @ [e]) then [e] else [])"
proof -
  have "nths es (kept_positions (es @ [e])) = nths es (kept_positions es)"
    by (rule nths_cong_below) (rule kept_positions_below)
  then show ?thesis by (simp add: nths_append)
qed

lemma filter_loop_kept_positions:
  "filter_loop es {} [] = Inr (seen', leads) \<Longrightarrow>
   map Inr leads = map lead_of (nths es (kept_positions es))"
proof (induction es arbitrary: seen' leads rule: rev_induct)
  case Nil
  then show ?case by simp
next
  case (snoc e es)
  from snoc.prems obtain s1 l1 where
    run: "filter_loop es {} [] = Inr (s1, l1)" and last: "filter_loop [e] s1 l1 = Inr (seen', leads)"
    by (auto simp: filter_loop_append bindE_Inr)
  from filter_loop_seen[OF run]
  have s1: "s1 = {dedup_key c' |e' c'. e' \<in> set es \<and> qualify e' = Inr (Some c')}" by simp
  note ih = snoc.IH[OF run]
  from last show ?case
  proof (cases rule: filter_loop_ConsE)
    case skip
    from skip(1) have "length es \<notin> kept_positions (es @ [e])" by (simp add: kept_positions_last)
    moreover from skip(2) have "leads = l1" by simp
    ultimately show ?thesis using ih by (simp add: nths_kept_positions_snoc)
  next
    case (dup c)
    from dup(1,2) have "length es \<notin> kept_positions (es @ [e])"
      unfolding kept_positions_last s1 by auto
    moreover from dup(3) have "leads = l1" by simp
    ultimately show ?thesis using ih by (simp add: nths_kept_positions_snoc)
  next
    case (keep c l)
    from keep(1,2) have "length es \<in> kept_positions (es @ [e])"
      unfolding kept_positions_last s1 by auto
    moreover from keep(4) have "leads = l1 @ [l]" by simp
    moreover from keep(1,3) have "lead_of e = Inr l" by (simp add: lead_of_def)
    ultimately show ?thesis using ih by (simp add: nths_kept_positions_snoc)
  qed
qed


text \<open>The loop raises on a record or passes it by or keeps it; when it ends, none raised.\<close>

lemma filter_loop_no_raise:
  "filter_loop es seen acc = Inr r \<Longrightarrow> e \<in> set es \<Longrightarrow> \<exists>q. qualify e = Inr q"
proof (induction es arbitrary: seen acc)
  case Nil
  then show ?case by simp
next
  case (Cons a es)
  from Cons.prems(1) show ?case
  proof (cases rule: filter_loop_ConsE)
    case skip
    with Cons.IH[OF skip(2)] Cons.prems(2) show ?thesis by auto
  next
    case (dup c)
    with Cons.IH[OF dup(3)] Cons.prems(2) show ?thesis by auto
  next
    case (keep c l)
    with Cons.IH[OF keep(4)] Cons.prems(2) show ?thesis by auto
  qed
qed

text \<open>
  When the filter returns, the positions it keeps are those of the qualifying records
  that are first with their dedup key.
\<close>

lemma kept_positions_first_of_key:
  assumes "filter_entries es = Inr leads"
  shows "kept_positions es = first_of_key es"
proof -
  from assms obtain seen' where run: "filter_loop es {} [] = Inr (seen', leads)"
    by (auto simp: filter_entries_loop)
  have pass: "\<exists>q. qualify (es ! i) = Inr q" if "i < length es" for i
    using filter_loop_no_raise[OF run] that by simp
  have built: "qualifying (es ! i)" if "i \<in> kept_positions es" for i
  proof -
    from that have i: "i < length es" by (simp add: kept_positions_def)
    with that have "es ! i \<in> set (nths es (kept_positions es))"
      by (auto simp: set_nths)
    then have "lead_of (es ! i) \<in> set (map lead_of (nths es (kept_positions es)))"
      by simp
    with filter_loop_kept_positions[OF run] have "lead_of (es ! i) \<in> set (map Inr leads)"
      by simp
    then obtain l where "lead_of (es ! i) = Inr l" by auto
    then obtain c where "qualify (es ! i) = Inr (Some c)" "build_lead c (es ! i) = Inr l"
      by (auto simp: lead_of_def split: sum.splits option.splits)
    then show ?thesis by (rule produced_qualifying)
  qed
  show ?thesis
  proof (intro set_eqI iffI)
    fix i assume k: "i \<in> kept_positions es"
    then obtain c where i: "i < length es" and c: "qualify (es ! i) = Inr (Some c)"
      and first: "\<forall>j<i. \<forall>c'. qualify (es ! j) = Inr (Some c') \<longrightarrow> dedup_key c' \<noteq> dedup_key c"
      by (auto simp: kept_positions_def)
    have "record_key (es ! j) \<noteq> record_key (es ! i)" if "j < i" "qualifying (es ! j)" for j
    proof -
      from that(1) i obtain q where "qualify (es ! j) = Inr q" using pass[of j] by auto
      with that(2) obtain c' where c': "qualify (es ! j) = Inr (Some c')"
        using qualifying_passes by blast
      with first that(1) have "dedup_key c' \<noteq> dedup_key c" by blast
      with qualify_key[OF c'] qualify_key[OF c] show ?thesis by simp
    qed
    with i built[OF k] show "i \<in> first_of_key es"
      by (simp add: first_of_key_def)
  next
    fix i assume f: "i \<in> first_of_key es"
    then have i: "i < length es" and q: "qualifying (es ! i)"
      and first: "\<forall>j<i. qualifying (es ! j) \<longrightarrow> record_key (es ! j) \<noteq> record_key (es ! i)"
      by (simp_all add: first_of_key_def)
    from pass[OF i] q obtain c where c: "qualify (es ! i) = Inr (Some c)"
      using qualifying_passes by blast
    have "\<forall>j<i. \<forall>c'. qualify (es ! j) = Inr (Some c') \<longrightarrow> dedup_key c' \<noteq> dedup_key c"
    proof (rule ccontr)
      assume "\<not> ?thesis"
      then have "\<exists>j. j < i \<and> (\<exists>c'. qualify (es ! j) = Inr (Some c') \<and> dedup_key c' = dedup_key c)"
        by blast
      then obtain j where j: "j < i"
        and "\<exists>c'. qualify (es ! j) = Inr (Some c') \<and> dedup_key c' = dedup_key c"
        and least: "\<forall>k<j. \<not> (k < i \<and> (\<exists>c'. qualify (es ! k) = Inr (Some c') \<and>
                                 dedup_key c' = dedup_key c))"
        unfolding exists_least_iff[of "\<lambda>j. j < i \<and>
            (\<exists>c'. qualify (es ! j) = Inr (Some c') \<and> dedup_key c' = dedup_key c)"]
        by blast
      then obtain c0 where c0: "qualify (es ! j) = Inr (Some c0)" "dedup_key c0 = dedup_key c"
        by blast
      from j i least c0 have "j \<in> kept_positions es"
        by (auto simp: kept_positions_def)
      then have "qualifying (es ! j)" by (rule built)
      with first j have "record_key (es ! j) \<noteq> record_key (es ! i)" by blast
      with qualify_key[OF c0(1)] qualify_key[OF c] c0(2) show False by simp
    qed
    with i c show "i \<in> kept_positions es"
      by (auto simp: kept_positions_def)
  qed
qed

text \<open>
  The leads that the filter returns are, in input order, the leads of exactly those
  records that are qualifying and are the first among the qualifying records with their
  dedup key, which is the trimmed title, the separator and the trimmed phone. A later
  record with the key of an earlier qualifying one gives no lead, whatever its other
  fields hold. Here a record whose count is NaN is among the qualifying ones.
\<close>

lemma first_of_key_kept:
  assumes "filter_entries es = Inr leads"
  shows "map Inr leads = map lead_of (nths es (first_of_key es))"
proof -
  from assms obtain seen' where "filter_loop es {} [] = Inr (seen', leads)"
    by (auto simp: filter_entries_loop)
  then have "map Inr leads = map lead_of (nths es (kept_positions es))"
    by (rule filter_loop_kept_positions)
  with kept_positions_first_of_key[OF assms] show ?thesis by simp
qed

text \<open>
  C3 fails on the code. Two listings have the same title and phone, so the same dedup
  key; the count of the first is NaN, that of the second is 5. The second is the first
  record of its key that satisfies the three predicates, and alone it gives a lead. After
  the first, which passes the test \<^verbatim>\<open>review_count < 1\<close> and takes the key, it is dropped.
\<close>

theorem nan_count_takes_key:
  "\<not> has_reviews count_nan \<and>
   no_website cafe_b_five \<and> has_reviews cafe_b_five \<and> has_contact cafe_b_five \<and>
   record_key count_nan = ''Cafe B|021'' \<and>
   record_key cafe_b_five = ''Cafe B|021'' \<and>
   filter_entries [cafe_b_five] = Inr [cafe_lead ''Cafe B'' (PyInt 5)] \<and>
   filter_entries [count_nan, cafe_b_five] = Inr [cafe_lead ''Cafe B'' (PyFloat FNaN)]"
  by code_simp

text \<open>
  C10. Two records that pass the three tests, with different (title, phone) pairs, can
  have the same dedup key: title \<open>A|B\<close> with phone \<open>C\<close>, and title \<open>A\<close> with phone \<open>B|C\<close>.
  Each alone gives a lead; together, whichever comes second gives none.
\<close>

theorem dedup_key_collision:
  "lead_of bar_in_title = Inr bar_in_title_lead \<and>
   lead_of bar_in_phone = Inr bar_in_phone_lead \<and>
   title_phone bar_in_title_lead = (''A|B'', ''C'') \<and>
   title_phone bar_in_phone_lead = (''A'', ''B|C'') \<and>
   title_phone bar_in_title_lead \<noteq> title_phone bar_in_phone_lead \<and>
   qualify bar_in_title =
     Inr (Some \<lparr>c_title = ''A|B'', c_phone = ''C'', c_emails = JArr [],
                c_review_count = PyInt 1\<rparr>) \<and>
   qualify bar_in_phone =
     Inr (Some \<lparr>c_title = ''A'', c_phone = ''B|C'', c_emails = JArr [],
                c_review_count = PyInt 1\<rparr>) \<and>
   dedup_key \<lparr>c_title = ''A|B'', c_phone = ''C'', c_emails = JArr [],
              c_review_count = PyInt 1\<rparr> = ''A|B|C'' \<and>
   dedup_key \<lparr>c_title = ''A'', c_phone = ''B|C'', c_emails = JArr [],
              c_review_count = PyInt 1\<rparr> = ''A|B|C'' \<and>
   filter_entries [bar_in_title] = Inr [bar_in_title_lead] \<and>
   filter_entries [bar_in_phone] = Inr [bar_in_phone_lead] \<and>
   filter_entries [bar_in_title, bar_in_phone] = Inr [bar_in_title_lead] \<and>
   filter_entries [bar_in_phone, bar_in_title] = Inr [bar_in_phone_lead]"
  by code_simp


section \<open>The ranker\<close>

lemma mset_insert_lead: "mset (insert_lead x ys) = add_mset x (mset ys)"
  by (induction ys) auto

lemma mset_stable_sort: "mset (stable_sort ls) = mset ls"
  by (induction ls) (auto simp: stable_sort_def mset_insert_lead)

text \<open>Whatever the arrangement, the ranked list holds the leads of the filtered one.\<close>

lemma mset_rank: "mset (rank arrange ls) = mset ls"
proof -
  have "mset (map (\<lambda>i. ls ! i) p) = mset ls" if "sort p = [0..<length ls]" for p
  proof -
    have "mset p = mset (sort p)" by simp
    with that have "mset p = mset [0..<length ls]" by simp
    then have "mset (map (\<lambda>i. ls ! i) p) = mset (map (\<lambda>i. ls ! i) [0..<length ls])"
      by (metis mset_map)
    then show ?thesis by (simp add: map_nth)
  qed
  then show ?thesis by (simp add: rank_def mset_stable_sort)
qed

lemma distinct_rank:
  "distinct (map title_phone (rank arrange ls)) = distinct (map title_phone ls)"
proof -
  have "mset (map title_phone (rank arrange ls)) = mset (map title_phone ls)"
    by (simp add: mset_rank)
  then show ?thesis by (rule mset_eq_imp_distinct_iff)
qed

text \<open>On values other than NaN Python's comparisons are those of the codes.\<close>

lemma val_lt_code: "a \<noteq> FNaN \<Longrightarrow> b \<noteq> FNaN \<Longrightarrow> val_lt a b \<longleftrightarrow> val_code a < val_code b"
  by (cases a; cases b) auto

lemma val_eq_code: "a \<noteq> FNaN \<Longrightarrow> b \<noteq> FNaN \<Longrightarrow> val_eq a b \<longleftrightarrow> val_code a = val_code b"
  by (cases a; cases b) auto

lemma val_le_neg_code:
  "a \<noteq> FNaN \<Longrightarrow> b \<noteq> FNaN \<Longrightarrow>
   val_le b a \<longleftrightarrow> val_code (val_neg a) \<le> val_code (val_neg b)"
  by (cases a; cases b) (auto simp: val_le_def)

lemma val_neg_nan: "val_neg a = FNaN \<longleftrightarrow> a = FNaN"
  by (cases a) auto

lemma val_eq_neg_code:
  "a \<noteq> FNaN \<Longrightarrow> b \<noteq> FNaN \<Longrightarrow>
   val_eq a b \<longleftrightarrow> val_code (val_neg a) = val_code (val_neg b)"
  by (cases a; cases b) auto

lemma key_lt_code:
  assumes "num_val (review_count x) \<noteq> FNaN" "num_val (review_count y) \<noteq> FNaN"
  shows "key_lt (sort_key_of y) (sort_key_of x) \<longleftrightarrow>
         (tier y, val_code (snd (sort_key_of y))) < (tier x, val_code (snd (sort_key_of x)))"
  using assms
  by (auto simp: key_lt_def sort_key_of_def val_lt_code val_eq_code val_neg_nan)

lemma insert_lead_insort:
  assumes "num_val (review_count x) \<noteq> FNaN"
    and "\<forall>y \<in> set ys. num_val (review_count y) \<noteq> FNaN"
  shows "insert_lead x ys = insort_key (\<lambda>l. (tier l, val_code (snd (sort_key_of l)))) x ys"
  using assms(2)
proof (induction ys)
  case Nil
  then show ?case by simp
next
  case (Cons y ys)
  let ?K = "\<lambda>l. (tier l, val_code (snd (sort_key_of l)))"
  from Cons.prems have y: "num_val (review_count y) \<noteq> FNaN"
    and rest: "\<forall>y \<in> set ys. num_val (review_count y) \<noteq> FNaN" by simp_all
  have k: "key_lt (sort_key_of y) (sort_key_of x) \<longleftrightarrow> \<not> ?K x \<le> ?K y"
    unfolding key_lt_code[OF assms(1) y] by (rule not_le[symmetric])
  show ?case
  proof (cases "?K x \<le> ?K y")
    case True
    with k have "\<not> key_lt (sort_key_of y) (sort_key_of x)" by blast
    with True show ?thesis by (simp del: less_eq_prod_simp)
  next
    case False
    with k have "key_lt (sort_key_of y) (sort_key_of x)" by blast
    with False Cons.IH[OF rest] show ?thesis by (simp del: less_eq_prod_simp)
  qed
qed

lemma stable_sort_sort_key:
  "\<not> has_nan_count ls \<Longrightarrow>
   stable_sort ls = sort_key (\<lambda>l. (tier l, val_code (snd (sort_key_of l)))) ls"
proof (induction ls)
  case Nil
  then show ?case by (simp add: stable_sort_def)
next
  case (Cons x ls)
  then have x: "num_val (review_count x) \<noteq> FNaN" and rest: "\<not> has_nan_count ls"
    by (simp_all add: has_nan_count_def)
  from rest have "\<forall>y \<in> set ls. num_val (review_count y) \<noteq> FNaN"
    by (simp add: has_nan_count_def list_ex_iff)
  moreover have "set (stable_sort ls) = set ls"
    by (rule mset_eq_setD) (rule mset_stable_sort)
  ultimately have "\<forall>y \<in> set (stable_sort ls). num_val (review_count y) \<noteq> FNaN"
    by simp
  from insert_lead_insort[OF x this] Cons.IH[OF rest] show ?case
    by (simp add: stable_sort_def)
qed

text \<open>
  When no count is NaN the ranked list is sorted and the sort is stable: each lead is
  followed by one of a higher tier, or of the same tier with a count that is not larger,
  and the leads of one tier and one count keep the order they had.
\<close>

lemma rank_sorted_stable_unless_nan:
  assumes "\<not> has_nan_count ls"
  shows "mset (rank arrange ls) = mset ls"
    and "Suc i < length (rank arrange ls) \<Longrightarrow>
           in_order (rank arrange ls ! i) (rank arrange ls ! Suc i)"
    and "filter (\<lambda>l. tier l = k \<and> val_eq (num_val (review_count l)) v) (rank arrange ls) =
         filter (\<lambda>l. tier l = k \<and> val_eq (num_val (review_count l)) v) ls"
proof -
  let ?K = "\<lambda>l. (tier l, val_code (snd (sort_key_of l)))"
  from assms have r: "rank arrange ls = sort_key ?K ls"
    by (simp add: rank_def stable_sort_sort_key)
  from assms have nn: "\<forall>y \<in> set ls. num_val (review_count y) \<noteq> FNaN"
    by (simp add: has_nan_count_def list_ex_iff)
  show "mset (rank arrange ls) = mset ls" by (rule mset_rank)
  have le: "in_order a b" if "?K a \<le> ?K b" "a \<in> set ls" "b \<in> set ls" for a b
  proof -
    from that(2,3) nn have "num_val (review_count a) \<noteq> FNaN" "num_val (review_count b) \<noteq> FNaN"
      by simp_all
    with that(1) show ?thesis
      by (auto simp: in_order_def sort_key_of_def val_le_neg_code)
  qed
  show "in_order (rank arrange ls ! i) (rank arrange ls ! Suc i)"
    if i: "Suc i < length (rank arrange ls)"
  proof -
    have "sorted (map ?K (sort_key ?K ls))" by (rule sorted_sort_key)
    with i have "map ?K (sort_key ?K ls) ! i \<le> map ?K (sort_key ?K ls) ! Suc i"
      unfolding r by (simp add: sorted_iff_nth_Suc del: less_eq_prod_simp)
    with i have k: "?K (sort_key ?K ls ! i) \<le> ?K (sort_key ?K ls ! Suc i)"
      unfolding r by (simp del: less_eq_prod_simp)
    from i have "i < length (sort_key ?K ls)" and "Suc i < length (sort_key ?K ls)"
      unfolding r by simp_all
    then have "sort_key ?K ls ! i \<in> set (sort_key ?K ls)"
      and "sort_key ?K ls ! Suc i \<in> set (sort_key ?K ls)"
      by (simp_all only: nth_mem)
    then have "sort_key ?K ls ! i \<in> set ls" and "sort_key ?K ls ! Suc i \<in> set ls"
      by (simp_all only: set_sort)
    from le[OF k this] show ?thesis unfolding r .
  qed
  show "filter (\<lambda>l. tier l = k \<and> val_eq (num_val (review_count l)) v) (rank arrange ls) =
        filter (\<lambda>l. tier l = k \<and> val_eq (num_val (review_count l)) v) ls"
  proof (cases "v = FNaN")
    case True
    have "val_eq a FNaN = False" for a by (cases a) auto
    with True show ?thesis by simp
  next
    case False
    have eq: "(tier l = k \<and> val_eq (num_val (review_count l)) v) \<longleftrightarrow>
              ?K l = (k, val_code (val_neg v))" if "l \<in> set ls" for l
      using that nn False by (auto simp: sort_key_of_def val_eq_neg_code)
    have "filter (\<lambda>l. tier l = k \<and> val_eq (num_val (review_count l)) v) (sort_key ?K ls) =
          filter (\<lambda>l. ?K l = (k, val_code (val_neg v))) (sort_key ?K ls)"
      by (rule filter_cong) (auto simp: eq)
    also have "\<dots> = filter (\<lambda>l. ?K l = (k, val_code (val_neg v))) ls"
      by (rule sort_key_stable)
    also have "\<dots> = filter (\<lambda>l. tier l = k \<and> val_eq (num_val (review_count l)) v) ls"
      by (rule filter_cong) (auto simp: eq)
    finally show ?thesis unfolding r .
  qed
qed

lemma in_order_nan_left:
  "tier a = tier b \<Longrightarrow> num_val (review_count a) = FNaN \<Longrightarrow> \<not> in_order a b"
  by (cases "num_val (review_count b)") (auto simp: in_order_def val_le_def)

lemma in_order_nan_right:
  "tier a = tier b \<Longrightarrow> num_val (review_count b) = FNaN \<Longrightarrow> \<not> in_order a b"
  by (cases "num_val (review_count a)") (auto simp: in_order_def val_le_def)

text \<open>
  C4 fails on the code. Three records of one tier with the counts 3, NaN and 5 all pass
  the filter. The sort by \<^verbatim>\<open><\<close>, false of every pair with NaN, leaves them as they are,
  the count 3 before the count 5; and whatever arrangement a sort leaves, the lead with
  the NaN count has a neighbour, with which it is not in order.
\<close>

theorem nan_count_not_ranked:
  "filter_entries [count_three, count_nan, count_five] =
     Inr [cafe_lead ''Cafe A'' (PyInt 3), cafe_lead ''Cafe B'' (PyFloat FNaN),
          cafe_lead ''Cafe C'' (PyInt 5)] \<and>
   rank in_place [cafe_lead ''Cafe A'' (PyInt 3), cafe_lead ''Cafe B'' (PyFloat FNaN),
                  cafe_lead ''Cafe C'' (PyInt 5)] =
     [cafe_lead ''Cafe A'' (PyInt 3), cafe_lead ''Cafe B'' (PyFloat FNaN),
      cafe_lead ''Cafe C'' (PyInt 5)] \<and>
   \<not> in_order (cafe_lead ''Cafe A'' (PyInt 3)) (cafe_lead ''Cafe B'' (PyFloat FNaN)) \<and>
   \<not> in_order (cafe_lead ''Cafe B'' (PyFloat FNaN)) (cafe_lead ''Cafe C'' (PyInt 5)) \<and>
   \<not> in_order (cafe_lead ''Cafe A'' (PyInt 3)) (cafe_lead ''Cafe C'' (PyInt 5)) \<and>
   (\<exists>i. Suc i < length (rank arrange
             [cafe_lead ''Cafe A'' (PyInt 3), cafe_lead ''Cafe B'' (PyFloat FNaN),
              cafe_lead ''Cafe C'' (PyInt 5)]) \<and>
        \<not> in_order
            (rank arrange
               [cafe_lead ''Cafe A'' (PyInt 3), cafe_lead ''Cafe B'' (PyFloat FNaN),
                cafe_lead ''Cafe C'' (PyInt 5)] ! i)
            (rank arrange
               [cafe_lead ''Cafe A'' (PyInt 3), cafe_lead ''Cafe B'' (PyFloat FNaN),
                cafe_lead ''Cafe C'' (PyInt 5)] ! Suc i))"
proof -
  let ?L = "[cafe_lead ''Cafe A'' (PyInt 3), cafe_lead ''Cafe B'' (PyFloat FNaN),
             cafe_lead ''Cafe C'' (PyInt 5)]"
  let ?r = "rank arrange ?L"
  have f: "filter_entries [count_three, count_nan, count_five] = Inr ?L" by code_simp
  have p: "rank in_place ?L = ?L" by code_simp
  have o: "\<not> in_order (cafe_lead ''Cafe A'' (PyInt 3)) (cafe_lead ''Cafe B'' (PyFloat FNaN))"
    "\<not> in_order (cafe_lead ''Cafe B'' (PyFloat FNaN)) (cafe_lead ''Cafe C'' (PyInt 5))"
    "\<not> in_order (cafe_lead ''Cafe A'' (PyInt 3)) (cafe_lead ''Cafe C'' (PyInt 5))"
    by (simp_all add: in_order_def cafe_lead_def val_le_def)
  have m: "mset ?r = mset ?L" by (rule mset_rank)
  then have "length ?r = length ?L" by (rule mset_eq_length)
  then have len: "length ?r = 3" by simp
  from m have s: "set ?r = set ?L" by (rule mset_eq_setD)
  have t: "tier a = 3" if "a \<in> set ?r" for a
    using that unfolding s by (auto simp: cafe_lead_def)
  have "cafe_lead ''Cafe B'' (PyFloat FNaN) \<in> set ?r" unfolding s by simp
  then obtain k where "k < length ?r" and k2: "?r ! k = cafe_lead ''Cafe B'' (PyFloat FNaN)"
    unfolding in_set_conv_nth by blast
  then have k: "k < 3" unfolding len by simp
  from k2 have nan: "num_val (review_count (?r ! k)) = FNaN" by (simp add: cafe_lead_def)
  have e: "\<exists>i. Suc i < length ?r \<and> \<not> in_order (?r ! i) (?r ! Suc i)"
  proof (cases "k = Suc (Suc 0)")
    case True
    from len have "Suc 0 < length ?r" "Suc (Suc 0) < length ?r" by simp_all
    then have "tier (?r ! Suc 0) = 3" "tier (?r ! Suc (Suc 0)) = 3"
      by (simp_all only: t nth_mem)
    then have "tier (?r ! Suc 0) = tier (?r ! Suc (Suc 0))" by simp
    moreover from nan True have "num_val (review_count (?r ! Suc (Suc 0))) = FNaN" by simp
    ultimately have "\<not> in_order (?r ! Suc 0) (?r ! Suc (Suc 0))"
      by (rule in_order_nan_right)
    moreover from len have "Suc (Suc 0) < length ?r" by simp
    ultimately show ?thesis by blast
  next
    case False
    with k have sk: "Suc k < length ?r" unfolding len by simp
    then have "k < length ?r" by simp
    with sk have "tier (?r ! k) = 3" "tier (?r ! Suc k) = 3"
      by (simp_all only: t nth_mem)
    then have "tier (?r ! k) = tier (?r ! Suc k)" by simp
    then have "\<not> in_order (?r ! k) (?r ! Suc k)"
      using nan by (rule in_order_nan_left)
    with sk show ?thesis by blast
  qed
  from f p o e show ?thesis by (intro conjI)
qed

section \<open>The rating of a lead\<close>

text \<open>
  C6, amended. The \<open>review_rating\<close> of a lead is the value the record has under that key,
  null included, and the number 0 when the record has no such key.
\<close>

theorem review_rating_default:
  assumes "lead_of e = Inr l"
  shows "review_rating l =
           (case field e ''review_rating'' of None \<Rightarrow> JNum (PyInt 0) | Some v \<Rightarrow> v)"
proof -
  from assms obtain c where "build_lead c e = Inr l"
    by (auto simp: lead_of_def split: sum.splits option.splits)
  then show ?thesis by (rule build_lead_rating)
qed

theorem review_rating_default_witness:
  "lead_of sample_plumber = Inr plumber_lead \<and>
   field sample_plumber ''review_rating'' = None \<and>
   review_rating plumber_lead = JNum (PyInt 0)"
proof -
  have l: "lead_of sample_plumber = Inr plumber_lead" by code_simp
  have f: "field sample_plumber ''review_rating'' = None" by code_simp
  from review_rating_default[OF l] l f show ?thesis by simp
qed

text \<open>A record whose rating is null gives a lead whose rating is null, not 0.\<close>

theorem review_rating_null_counterexample:
  "field unrated ''review_rating'' = Some JNull \<and>
   filter_entries [unrated] =
     Inr [\<lparr>tier = 3, title = ''Cafe'', category = JStr [], phone = ''021'', emails = [],
           review_count = PyInt 2, review_rating = JNull, address = JStr [],
           google_maps_link = JStr [], status = JStr []\<rparr>] \<and>
   JNull \<noteq> JNum (PyInt 0)"
  by code_simp

section \<open>Records of the data model never raise\<close>










section \<open>The whole run\<close>

lemma file_names_distinct:
  "INPUT_FILE \<noteq> OUTPUT_ALL" "INPUT_FILE \<noteq> OUTPUT_TIER1" "INPUT_FILE \<noteq> OUTPUT_TIER2"
  "OUTPUT_ALL \<noteq> OUTPUT_TIER1" "OUTPUT_ALL \<noteq> OUTPUT_TIER2" "OUTPUT_TIER1 \<noteq> OUTPUT_TIER2"
  by (simp_all add: INPUT_FILE_def OUTPUT_ALL_def OUTPUT_TIER1_def OUTPUT_TIER2_def)

text \<open>The rows written are those of the leads up to the first that raises.\<close>

lemma write_rows_prefix:
  "map Inr (fst (write_rows row data)) =
     map row (take (length (fst (write_rows row data))) data)"
  by (induction data) (auto split: sum.splits prod.splits)

lemma write_rows_all:
  "\<forall>l \<in> set data. \<exists>s. row l = Inr s \<Longrightarrow>
   snd (write_rows row data) = None \<and> map Inr (fst (write_rows row data)) = map row data"
  by (induction data) (auto split: sum.splits prod.splits)

lemma write_csv_eq:
  "write_csv row name data (fs, out) =
     (snd (write_rows row data),
      fs(name \<mapsto> Text (header_row # fst (write_rows row data))),
      if snd (write_rows row data) = None then out @ [Written (length data) name] else out)"
  by (simp add: write_csv_def split: prod.splits)

text \<open>The ways a run ends.\<close>

lemma main_missing:
  "fs INPUT_FILE = None \<Longrightarrow>
   main loads arrange row fs = (Exited 1, [NotFound INPUT_FILE], fs)"
  by (simp add: main_def)

lemma main_undecodable:
  "fs INPUT_FILE = Some (Undecodable ls) \<Longrightarrow>
   main loads arrange row fs =
     (Raised (case load loads ls of Inl x \<Rightarrow> x | Inr entries \<Rightarrow> UnicodeDecodeError), [], fs)"
  by (simp add: main_def split: sum.splits)

lemma main_filter_raises:
  "fs INPUT_FILE = Some (Text ls) \<Longrightarrow> load loads ls = Inr entries \<Longrightarrow>
   filter_entries entries = Inl x \<Longrightarrow>
   main loads arrange row fs = (Raised x, [TotalEntries (length entries)], fs)"
  by (simp add: main_def)

lemma main_exports:
  fixes fs :: files and arrange :: "lead list \<Rightarrow> nat list" and row :: "lead \<Rightarrow> exc + string"
    and entries :: "json list" and unsorted :: "lead list"
  assumes "fs INPUT_FILE = Some (Text ls)" and "load loads ls = Inr entries"
    and "filter_entries entries = Inr unsorted"
  defines "leads \<equiv> rank arrange unsorted"
  defines "tier1 \<equiv> filter (\<lambda>l. tier l = 1) leads"
  defines "tier2 \<equiv> filter (\<lambda>l. tier l = 2) leads"
  defines "out1 \<equiv> TotalEntries (length entries) # tier_report leads"
  defines "fs1 \<equiv> fs(OUTPUT_ALL \<mapsto> Text (header_row # fst (write_rows row leads)))"
  defines "fs2 \<equiv> fs1(OUTPUT_TIER1 \<mapsto> Text (header_row # fst (write_rows row tier1)))"
  defines "fs3 \<equiv> fs2(OUTPUT_TIER2 \<mapsto> Text (header_row # fst (write_rows row tier2)))"
  shows "main loads arrange row fs =
     (case snd (write_rows row leads) of
        Some x \<Rightarrow> (Raised x, out1, fs1)
      | None \<Rightarrow>
     (case snd (write_rows row tier1) of
        Some x \<Rightarrow> (Raised x, out1 @ [Written (length leads) OUTPUT_ALL], fs2)
      | None \<Rightarrow>
     (case snd (write_rows row tier2) of
        Some x \<Rightarrow>
          (Raised x,
           out1 @ [Written (length leads) OUTPUT_ALL, Written (length tier1) OUTPUT_TIER1],
           fs3)
      | None \<Rightarrow>
          (Returned,
           out1 @ [Written (length leads) OUTPUT_ALL, Written (length tier1) OUTPUT_TIER1,
                   Written (length tier2) OUTPUT_TIER2, TopHeader] @ top10 tier1,
           fs3))))"
  using assms(1-3)
  unfolding leads_def tier1_def tier2_def out1_def fs1_def fs2_def fs3_def
  by (simp add: main_def write_csv_eq Let_def split: option.splits)

text \<open>
  What a run does depends on the input file alone: how it ends, what it prints, and
  which of the three exports it writes with what.
\<close>

lemma main_effect:
  "\<exists>r out m.
     dom m \<subseteq> {OUTPUT_ALL, OUTPUT_TIER1, OUTPUT_TIER2} \<and>
     (r = Returned \<longrightarrow> dom m = {OUTPUT_ALL, OUTPUT_TIER1, OUTPUT_TIER2}) \<and>
     (\<forall>fs. fs INPUT_FILE = inp \<longrightarrow> main loads arrange row fs = (r, out, fs ++ m))"
proof (cases inp)
  case None
  then show ?thesis
    by (intro exI[of _ "Exited 1"] exI[of _ "[NotFound INPUT_FILE]"] exI[of _ Map.empty])
       (simp add: main_missing)
next
  case (Some c)
  show ?thesis
  proof (cases c)
    case (Undecodable ls)
    with Some show ?thesis
      by (intro exI[of _ "Raised (case load loads ls of Inl x \<Rightarrow> x
                                  | Inr entries \<Rightarrow> UnicodeDecodeError)"]
            exI[of _ "[]"] exI[of _ Map.empty])
         (simp add: main_undecodable)
  next
    case (Text ls)
    show ?thesis
    proof (cases "load loads ls")
      case (Inl x)
      with Some Text show ?thesis
        by (intro exI[of _ "Raised x"] exI[of _ "[]"] exI[of _ Map.empty])
           (simp add: main_load_raises)
    next
      case entries: (Inr entries)
      show ?thesis
      proof (cases "filter_entries entries")
        case (Inl x)
        with Some Text entries show ?thesis
          by (intro exI[of _ "Raised x"] exI[of _ "[TotalEntries (length entries)]"]
                exI[of _ Map.empty])
             (simp add: main_filter_raises)
      next
        case (Inr unsorted)
        let ?leads = "rank arrange unsorted"
        let ?tier1 = "filter (\<lambda>l. tier l = 1) ?leads"
        let ?tier2 = "filter (\<lambda>l. tier l = 2) ?leads"
        let ?out1 = "TotalEntries (length entries) # tier_report ?leads"
        let ?c1 = "Text (header_row # fst (write_rows row ?leads))"
        let ?c2 = "Text (header_row # fst (write_rows row ?tier1))"
        let ?c3 = "Text (header_row # fst (write_rows row ?tier2))"
        note run = main_exports[where loads = loads and arrange = arrange and row = row,
            OF _ entries Inr]
        show ?thesis
        proof (cases "snd (write_rows row ?leads)")
          case w1: (Some x)
          show ?thesis
            by (intro exI[of _ "Raised x"] exI[of _ ?out1] exI[of _ "[OUTPUT_ALL \<mapsto> ?c1]"])
               (simp add: run Some Text w1)
        next
          case w1: None
          show ?thesis
          proof (cases "snd (write_rows row ?tier1)")
            case w2: (Some x)
            show ?thesis
              by (intro exI[of _ "Raised x"]
                    exI[of _ "?out1 @ [Written (length ?leads) OUTPUT_ALL]"]
                    exI[of _ "[OUTPUT_ALL \<mapsto> ?c1, OUTPUT_TIER1 \<mapsto> ?c2]"])
                 (simp add: run Some Text w1 w2 del: One_nat_def)
          next
            case w2: None
            show ?thesis
            proof (cases "snd (write_rows row ?tier2)")
              case w3: (Some x)
              show ?thesis
                by (intro exI[of _ "Raised x"]
                      exI[of _ "?out1 @ [Written (length ?leads) OUTPUT_ALL,
                                         Written (length ?tier1) OUTPUT_TIER1]"]
                      exI[of _ "[OUTPUT_ALL \<mapsto> ?c1, OUTPUT_TIER1 \<mapsto> ?c2,
                                 OUTPUT_TIER2 \<mapsto> ?c3]"])
                   (simp add: run Some Text w1 w2 w3 del: One_nat_def)
            next
              case w3: None
              show ?thesis
                by (intro exI[of _ Returned]
                      exI[of _ "?out1 @ [Written (length ?leads) OUTPUT_ALL,
                                         Written (length ?tier1) OUTPUT_TIER1,
                                         Written (length ?tier2) OUTPUT_TIER2, TopHeader] @
                                top10 ?tier1"]
                      exI[of _ "[OUTPUT_ALL \<mapsto> ?c1, OUTPUT_TIER1 \<mapsto> ?c2,
                                 OUTPUT_TIER2 \<mapsto> ?c3]"])
                   (auto simp: run Some Text w1 w2 w3 simp del: One_nat_def)
            qed
          qed
        qed
      qed
    qed
  qed
qed

lemma map_add_twice: "(fs ++ m) ++ m = fs ++ m"
  by (rule ext) (simp add: map_add_def split: option.splits)

lemma map_add_outside: "k \<notin> dom m \<Longrightarrow> (fs ++ m) k = fs k"
  by (simp add: map_add_def domIff split: option.splits)

lemma map_add_inside: "k \<in> dom m \<Longrightarrow> (fs ++ m) k = m k"
  by (auto simp: map_add_def split: option.splits)

lemma distinct_map_take: "distinct (map f xs) \<Longrightarrow> distinct (map f (take n xs))"
  by (simp add: take_map[symmetric])

text \<open>
  C5. When the filter returns, no two of its leads have the same (title, phone) pair; the
  same holds of the ranked list and of its tier-1 and tier-2 parts, and these three lists
  are what the run writes, row by row under the header, to the three export files: each
  export that is opened holds the rows of the leads of its list up to the first whose row
  cannot be written, so of leads with distinct pairs, and when every row is written the
  three exports hold the rows of the three lists.
\<close>

theorem title_phone_unique:
  assumes "fs INPUT_FILE = Some (Text ls)" and "load loads ls = Inr entries"
    and "filter_entries entries = Inr leads"
  shows "distinct (map title_phone leads) \<and>
         distinct (map title_phone (rank arrange leads)) \<and>
         distinct (map title_phone (filter (\<lambda>l. tier l = 1) (rank arrange leads))) \<and>
         distinct (map title_phone (filter (\<lambda>l. tier l = 2) (rank arrange leads))) \<and>
         snd (snd (main loads arrange row fs)) OUTPUT_ALL =
           Some (Text (header_row # fst (write_rows row (rank arrange leads)))) \<and>
         (snd (write_rows row (rank arrange leads)) = None \<longrightarrow>
            snd (snd (main loads arrange row fs)) OUTPUT_TIER1 =
              Some (Text (header_row #
                fst (write_rows row (filter (\<lambda>l. tier l = 1) (rank arrange leads)))))) \<and>
         (snd (write_rows row (rank arrange leads)) = None \<and>
          snd (write_rows row (filter (\<lambda>l. tier l = 1) (rank arrange leads))) = None \<longrightarrow>
            snd (snd (main loads arrange row fs)) OUTPUT_TIER2 =
              Some (Text (header_row #
                fst (write_rows row (filter (\<lambda>l. tier l = 2) (rank arrange leads)))))) \<and>
         (\<forall>data. distinct (map title_phone data) \<longrightarrow>
            (\<exists>n. map Inr (fst (write_rows row data)) = map row (take n data) \<and>
                 distinct (map title_phone (take n data)))) \<and>
         ((\<forall>l \<in> set leads. row l = Inr (line l)) \<longrightarrow>
            snd (snd (main loads arrange row fs)) OUTPUT_ALL =
              Some (Text (header_row # map line (rank arrange leads))) \<and>
            snd (snd (main loads arrange row fs)) OUTPUT_TIER1 =
              Some (Text (header_row #
                map line (filter (\<lambda>l. tier l = 1) (rank arrange leads)))) \<and>
            snd (snd (main loads arrange row fs)) OUTPUT_TIER2 =
              Some (Text (header_row #
                map line (filter (\<lambda>l. tier l = 2) (rank arrange leads)))))"
proof -
  let ?leads = "rank arrange leads"
  let ?tier1 = "filter (\<lambda>l. tier l = 1) ?leads"
  let ?tier2 = "filter (\<lambda>l. tier l = 2) ?leads"
  let ?fs = "snd (snd (main loads arrange row fs))"
  note run = main_exports[where loads = loads and arrange = arrange and row = row
      and fs = fs, OF assms]
  from assms(3) have d: "distinct (map title_phone leads)" by (rule filter_entries_distinct)
  then have r: "distinct (map title_phone ?leads)" by (simp add: distinct_rank)
  from r have t: "distinct (map title_phone ?tier1)" "distinct (map title_phone ?tier2)"
    by (rule distinct_map_filter)+
  have a: "?fs OUTPUT_ALL = Some (Text (header_row # fst (write_rows row ?leads)))"
    by (simp add: run file_names_distinct split: option.splits del: One_nat_def)
  have b: "?fs OUTPUT_TIER1 = Some (Text (header_row # fst (write_rows row ?tier1)))"
    if "snd (write_rows row ?leads) = None"
    using that by (simp add: run file_names_distinct split: option.splits del: One_nat_def)
  have c: "?fs OUTPUT_TIER2 = Some (Text (header_row # fst (write_rows row ?tier2)))"
    if "snd (write_rows row ?leads) = None" "snd (write_rows row ?tier1) = None"
    using that by (simp add: run file_names_distinct split: option.splits del: One_nat_def)
  have p: "\<exists>n. map Inr (fst (write_rows row data)) = map row (take n data) \<and>
             distinct (map title_phone (take n data))"
    if "distinct (map title_phone data)" for data
    using that write_rows_prefix[of row data] distinct_map_take by blast
  have w: "snd (write_rows row data) = None \<and> fst (write_rows row data) = map line data"
    if "\<forall>l \<in> set data. row l = Inr (line l)" for data
    using that by (induction data) (auto split: prod.splits)
  have s: "set ?leads = set leads" by (rule mset_eq_setD) (rule mset_rank)
  have e: "?fs OUTPUT_ALL = Some (Text (header_row # map line ?leads)) \<and>
           ?fs OUTPUT_TIER1 = Some (Text (header_row # map line ?tier1)) \<and>
           ?fs OUTPUT_TIER2 = Some (Text (header_row # map line ?tier2))"
    if h: "\<forall>l \<in> set leads. row l = Inr (line l)"
  proof -
    from h s have 1: "\<forall>l \<in> set ?leads. row l = Inr (line l)" by simp
    then have 2: "\<forall>l \<in> set ?tier1. row l = Inr (line l)"
      and 3: "\<forall>l \<in> set ?tier2. row l = Inr (line l)" by simp_all
    from w[OF 1] w[OF 2] w[OF 3] a b c show ?thesis by simp
  qed
  from d r t a b c p e show ?thesis by blast
qed


lemma write_rows_lines:
  "\<forall>l \<in> set data. row l = Inr (line l) \<Longrightarrow>
   write_rows row data = (map line data, None)"
  by (induction data) (auto split: prod.splits)

lemma salon_load: "load sample_loads salon_lines = Inr [salon_first, salon_second]"
  by code_simp

lemma salon_filter: "filter_entries [salon_first, salon_second] = Inr [salon_lead]"
  by code_simp

lemma salon_rank: "rank in_place [salon_lead] = [salon_lead]"
  by code_simp



theorem title_phone_unique_witness:
  "salon_file INPUT_FILE = Some (Text salon_lines) \<and>
   load sample_loads salon_lines = Inr [salon_first, salon_second] \<and>
   filter_entries [salon_first, salon_second] = Inr [salon_lead] \<and>
   distinct (map title_phone (rank in_place [salon_lead])) \<and>
   snd (snd (main sample_loads in_place sample_row salon_file)) OUTPUT_ALL =
     Some (Text [header_row, ''ABC Salon,0733000000'' @ [CHR 0x0D, CHR 0x0A]]) \<and>
   snd (snd (main sample_loads in_place sample_row salon_file)) OUTPUT_TIER1 =
     Some (Text [header_row]) \<and>
   snd (snd (main sample_loads in_place sample_row salon_file)) OUTPUT_TIER2 =
     Some (Text [header_row, ''ABC Salon,0733000000'' @ [CHR 0x0D, CHR 0x0A]])"
proof -
  have f: "salon_file INPUT_FILE = Some (Text salon_lines)" by (simp add: salon_file_def)
  have w: "\<forall>l \<in> set [salon_lead].
             sample_row l = Inr (title l @ '','' @ phone l @ [CHR 0x0D, CHR 0x0A])"
    by (simp add: sample_row_def)
  have t: "title salon_lead = ''ABC Salon''" "phone salon_lead = ''0733000000''"
    "tier salon_lead = 2"
    by (simp_all add: salon_lead_def)
  from title_phone_unique[where fs = salon_file and row = sample_row and arrange = in_place
      and line = "\<lambda>l. title l @ '','' @ phone l @ [CHR 0x0D, CHR 0x0A]",
      OF f salon_load salon_filter] w
  have "distinct (map title_phone (rank in_place [salon_lead])) \<and>
        snd (snd (main sample_loads in_place sample_row salon_file)) OUTPUT_ALL =
          Some (Text (header_row # map (\<lambda>l. title l @ '','' @ phone l @ [CHR 0x0D, CHR 0x0A])
            (rank in_place [salon_lead]))) \<and>
        snd (snd (main sample_loads in_place sample_row salon_file)) OUTPUT_TIER1 =
          Some (Text (header_row # map (\<lambda>l. title l @ '','' @ phone l @ [CHR 0x0D, CHR 0x0A])
            (filter (\<lambda>l. tier l = 1) (rank in_place [salon_lead])))) \<and>
        snd (snd (main sample_loads in_place sample_row salon_file)) OUTPUT_TIER2 =
          Some (Text (header_row # map (\<lambda>l. title l @ '','' @ phone l @ [CHR 0x0D, CHR 0x0A])
            (filter (\<lambda>l. tier l = 2) (rank in_place [salon_lead]))))"
    by blast
  with f salon_load salon_filter show ?thesis by (simp add: salon_rank t)
qed






text \<open>
  C9. A run is a function of the input file alone. Run on the files that a run has left,
  it ends the same way, prints the same and leaves the same files; and two runs on file
  systems that agree on the input file end the same way, print the same and, when they
  complete, write the same three exports.
\<close>

theorem run_deterministic:
  "main loads arrange row (snd (snd (main loads arrange row fs))) = main loads arrange row fs \<and>
   (fs' INPUT_FILE = fs INPUT_FILE \<longrightarrow>
      fst (main loads arrange row fs') = fst (main loads arrange row fs) \<and>
      fst (snd (main loads arrange row fs')) = fst (snd (main loads arrange row fs)) \<and>
      (fst (main loads arrange row fs) = Returned \<longrightarrow>
         snd (snd (main loads arrange row fs')) OUTPUT_ALL =
           snd (snd (main loads arrange row fs)) OUTPUT_ALL \<and>
         snd (snd (main loads arrange row fs')) OUTPUT_TIER1 =
           snd (snd (main loads arrange row fs)) OUTPUT_TIER1 \<and>
         snd (snd (main loads arrange row fs')) OUTPUT_TIER2 =
           snd (snd (main loads arrange row fs)) OUTPUT_TIER2))"
proof -
  from main_effect[of "fs INPUT_FILE" loads arrange row]
  obtain r out m where p: "dom m \<subseteq> {OUTPUT_ALL, OUTPUT_TIER1, OUTPUT_TIER2} \<and>
     (r = Returned \<longrightarrow> dom m = {OUTPUT_ALL, OUTPUT_TIER1, OUTPUT_TIER2}) \<and>
     (\<forall>fs'. fs' INPUT_FILE = fs INPUT_FILE \<longrightarrow>
        main loads arrange row fs' = (r, out, fs' ++ m))"
    by (elim exE)
  from p have d: "dom m \<subseteq> {OUTPUT_ALL, OUTPUT_TIER1, OUTPUT_TIER2}" by (rule conjunct1)
  from p have a: "r = Returned \<longrightarrow> dom m = {OUTPUT_ALL, OUTPUT_TIER1, OUTPUT_TIER2}"
    by (rule conjunct1[OF conjunct2])
  from p have "\<forall>fs'. fs' INPUT_FILE = fs INPUT_FILE \<longrightarrow>
        main loads arrange row fs' = (r, out, fs' ++ m)"
    by (rule conjunct2[OF conjunct2])
  then have e: "main loads arrange row fs' = (r, out, fs' ++ m)"
    if "fs' INPUT_FILE = fs INPUT_FILE" for fs'
    using that by (elim allE impE)
  have "INPUT_FILE \<notin> {OUTPUT_ALL, OUTPUT_TIER1, OUTPUT_TIER2}"
    by (simp add: file_names_distinct)
  with d have i: "INPUT_FILE \<notin> dom m" by (rule contra_subsetD)
  have m1: "main loads arrange row fs = (r, out, fs ++ m)" by (rule e) simp
  from i have "(fs ++ m) INPUT_FILE = fs INPUT_FILE" by (rule map_add_outside)
  then have "main loads arrange row (fs ++ m) = (r, out, (fs ++ m) ++ m)" by (rule e)
  then have 1: "main loads arrange row (snd (snd (main loads arrange row fs))) =
                main loads arrange row fs"
    by (simp add: m1 map_add_twice)
  have 2: "fst (main loads arrange row fs') = fst (main loads arrange row fs) \<and>
      fst (snd (main loads arrange row fs')) = fst (snd (main loads arrange row fs)) \<and>
      (fst (main loads arrange row fs) = Returned \<longrightarrow>
         snd (snd (main loads arrange row fs')) OUTPUT_ALL =
           snd (snd (main loads arrange row fs)) OUTPUT_ALL \<and>
         snd (snd (main loads arrange row fs')) OUTPUT_TIER1 =
           snd (snd (main loads arrange row fs)) OUTPUT_TIER1 \<and>
         snd (snd (main loads arrange row fs')) OUTPUT_TIER2 =
           snd (snd (main loads arrange row fs)) OUTPUT_TIER2)"
    if h: "fs' INPUT_FILE = fs INPUT_FILE"
  proof -
    have m2: "main loads arrange row fs' = (r, out, fs' ++ m)" using h by (rule e)
    have "(fs' ++ m) k = (fs ++ m) k" if "r = Returned"
      and "k \<in> {OUTPUT_ALL, OUTPUT_TIER1, OUTPUT_TIER2}" for k
    proof -
      from that a have "k \<in> dom m" by simp
      then show ?thesis by (simp add: map_add_inside)
    qed
    from this[of OUTPUT_ALL] this[of OUTPUT_TIER1] this[of OUTPUT_TIER2]
    show ?thesis unfolding m1 m2 by simp
  qed
  from 1 2 show ?thesis by simp
qed

theorem run_deterministic_witness:
  "(salon_file(OUTPUT_ALL \<mapsto> Text [''stale''])) INPUT_FILE = salon_file INPUT_FILE \<and>
   fst (main sample_loads in_place sample_row salon_file) = Returned \<and>
   fst (snd (main sample_loads in_place sample_row (salon_file(OUTPUT_ALL \<mapsto> Text [''stale''])))) =
     fst (snd (main sample_loads in_place sample_row salon_file)) \<and>
   snd (snd (main sample_loads in_place sample_row (salon_file(OUTPUT_ALL \<mapsto> Text [''stale''])))) OUTPUT_ALL =
     snd (snd (main sample_loads in_place sample_row salon_file)) OUTPUT_ALL"
proof -
  have i: "(salon_file(OUTPUT_ALL \<mapsto> Text [''stale''])) INPUT_FILE = salon_file INPUT_FILE"
    by (simp add: file_names_distinct)
  have f: "salon_file INPUT_FILE = Some (Text salon_lines)" by (simp add: salon_file_def)
  have w: "write_rows sample_row data =
             (map (\<lambda>l. title l @ '','' @ phone l @ [CHR 0x0D, CHR 0x0A]) data, None)" for data
    by (rule write_rows_lines) (simp add: sample_row_def)
  have n: "fst (main sample_loads in_place sample_row salon_file) = Returned"
    by (simp add: main_exports[where fs = salon_file, OF f salon_load salon_filter] w)
  from run_deterministic[of sample_loads in_place sample_row salon_file
      "salon_file(OUTPUT_ALL \<mapsto> Text [''stale''])"] i n
  show ?thesis by blast
qed


end
